theory Spec2Isabelle
  imports Main "HOL-Library.Sublist" "HOL-Library.Multiset" "HOL-Library.List_Lexorder"
begin

section \<open>Strings of the runtime\<close>

text \<open>
  JavaScript strings are modelled as \<open>string\<close> (lists of 8-bit characters), so the
  development covers ASCII text. \<open>toLowerCase\<close> lowers the letters A-Z and
  \<open>includes\<close> is the search for a contiguous substring.
\<close>

definition lowerChar :: "char \<Rightarrow> char" where
  "lowerChar c = (let n = (of_char c :: nat) in if 65 \<le> n \<and> n \<le> 90 then char_of (n + 32) else c)"

definition toLowerCase :: "string \<Rightarrow> string" where
  "toLowerCase s = map lowerChar s"

fun includesStr :: "string \<Rightarrow> string \<Rightarrow> bool" where
  "includesStr [] sub = (sub = [])"
| "includesStr (c # cs) sub = (prefix sub (c # cs) \<or> includesStr cs sub)"

text \<open>Decimal rendering of a number inside a template literal.\<close>

definition digitChar :: "nat \<Rightarrow> char" where
  "digitChar d = char_of (48 + d)"

fun stringOfNat :: "nat \<Rightarrow> string" where
  "stringOfNat n = (if n < 10 then [digitChar n] else stringOfNat (n div 10) @ [digitChar (n mod 10)])"

declare stringOfNat.simps [simp del]

definition stringOfInt :: "int \<Rightarrow> string" where
  "stringOfInt i = (if i < 0 then CHR ''-'' # stringOfNat (nat (- i)) else stringOfNat (nat i))"


section \<open>Persistence resilience layer (utils/database.js)\<close>

text \<open>
  An error object as the classifier reads it: \<open>message\<close> may be undefined, \<open>code\<close>
  may be absent, a number (store errors) or a string (driver and SDK errors), and
  \<open>name\<close> is the constructor name.
\<close>

datatype errCode = NumCode int | StrCode string

record jsError =
  message :: "string option"
  code :: "errCode option"
  ename :: string

text \<open>Truthiness of \<open>error.code\<close>: \<open>undefined\<close>, \<open>0\<close> and \<open>''''\<close> are falsy.\<close>

fun truthyCode :: "errCode option \<Rightarrow> bool" where
  "truthyCode None = False"
| "truthyCode (Some (NumCode n)) = (n \<noteq> 0)"
| "truthyCode (Some (StrCode s)) = (s \<noteq> [])"

definition retryableCodes :: "int list" where
  "retryableCodes = [11000, 16500, 189, 91, 7, 6, 89, 9001]"

text \<open>\<open>retryableCodes.includes(error.code)\<close> compares without coercion: a string never matches.\<close>

fun codeListed :: "errCode option \<Rightarrow> bool" where
  "codeListed (Some (NumCode n)) = (n \<in> set retryableCodes)"
| "codeListed _ = False"

text \<open>\<open>isRetryableError\<close>; the argument is \<open>None\<close> for a null or undefined error.\<close>

definition isRetryableError :: "jsError option \<Rightarrow> bool" where
  "isRetryableError err =
     (case err of
        None \<Rightarrow> False
      | Some error \<Rightarrow>
          (let msg = (case message error of None \<Rightarrow> [] | Some m \<Rightarrow> toLowerCase m) in
           if includesStr msg ''connection'' \<or> includesStr msg ''timeout'' then True
           else if truthyCode (code error) \<and> codeListed (code error) then True
           else if ename error = ''MongoNetworkError'' \<or> ename error = ''MongoTimeoutError'' then True
           else False))"

text \<open>\<open>new Error(msg)\<close>.\<close>

definition newError :: "string \<Rightarrow> jsError" where
  "newError m = \<lparr> message = Some m, code = None, ename = ''Error'' \<rparr>"

text \<open>
  The options of \<open>handlePersistenceOperation\<close> after destructuring with its defaults;
  \<open>'c\<close> is the type of the caller's context object.
\<close>

record 'c options =
  maxRetries :: int
  baseDelay :: int
  enableRetry :: bool
  opContext :: 'c

definition defaultOptions :: "'c \<Rightarrow> 'c options" where
  "defaultOptions ctx = \<lparr> maxRetries = 3, baseDelay = 1000, enableRetry = True, opContext = ctx \<rparr>"

text \<open>The enriched failure built in the catch block, and everything the wrapper can throw.\<close>

record 'c enhancedError =
  emessage :: string
  originalError :: jsError
  attempts :: int
  retryable :: bool
  econtext :: 'c
  operationName :: string

datatype 'c thrown = Enhanced "'c enhancedError" | Raw jsError | Undefined

text \<open>
  Console output. The retry warning also prints the jittered delay, which depends on
  \<open>Math.random\<close> and is left out of the entry; the entry keeps the exponential base
  delay \<open>baseDelay * 2^(attempt-1)\<close>.
\<close>

datatype logEntry =
    Succeeded string int int
  | Retrying string int int int
  | Failed string jsError

text \<open>
  The world is a state \<open>'s\<close>: the liveness predicate \<open>isConnected\<close> reads it, and the
  wrapped operation reads and changes it, returning \<open>Inl\<close> the error it throws or
  \<open>Inr\<close> its value. The state an operation returns is the world as the next liveness
  check sees it (the timer wait is not modelled apart from that).
\<close>

type_synonym ('s, 'a) operation = "'s \<Rightarrow> (jsError + 'a) \<times> 's"

definition messageText :: "jsError \<Rightarrow> string" where
  "messageText e = (case message e of None \<Rightarrow> ''undefined'' | Some m \<Rightarrow> m)"

definition enhance :: "string \<Rightarrow> int \<Rightarrow> bool \<Rightarrow> 'c \<Rightarrow> jsError \<Rightarrow> 'c enhancedError" where
  "enhance opName attempt isRetryable ctx error =
     \<lparr> emessage = opName @ '' failed after '' @ stringOfInt attempt @ '' attempts: '' @ messageText error,
       originalError = error,
       attempts = attempt,
       retryable = isRetryable,
       econtext = ctx,
       operationName = opName \<rparr>"

text \<open>\<open>handleDatabaseOperation\<close>: liveness check, one call, log and rethrow.\<close>

definition handleDatabaseOperation ::
  "('s \<Rightarrow> bool) \<Rightarrow> ('s, 'a) operation \<Rightarrow> string \<Rightarrow> 's \<Rightarrow> (jsError + 'a) \<times> 's \<times> logEntry list" where
  "handleDatabaseOperation isConnected operation errorMessage s =
     (if \<not> isConnected s then
        (let e = newError ''Database not connected'' in (Inl e, s, [Failed errorMessage e]))
      else (case operation s of
              (Inr v, s') \<Rightarrow> (Inr v, s', [])
            | (Inl e, s') \<Rightarrow> (Inl e, s', [Failed errorMessage e])))"

text \<open>
  The \<open>for (attempt = 1; attempt <= maxRetries; attempt++)\<close> loop of
  \<open>handlePersistenceOperation\<close>, from the iteration \<open>attempt\<close> on. \<open>lastError\<close> is the
  variable of that name (\<open>None\<close> while undefined); \<open>lg\<close> is the console so far.
\<close>

function retryLoop ::
  "('s \<Rightarrow> bool) \<Rightarrow> ('s, 'a) operation \<Rightarrow> string \<Rightarrow> 'c options \<Rightarrow> int \<Rightarrow> jsError option \<Rightarrow> 's \<Rightarrow> logEntry list
     \<Rightarrow> ('c thrown + 'a) \<times> 's \<times> logEntry list" where
  "retryLoop isConnected operation opName opts attempt lastError s lg =
     (if attempt \<le> maxRetries opts then
        (case (if \<not> isConnected s then (Inl (newError ''Database connection lost''), s) else operation s) of
           (Inr result, s') \<Rightarrow>
             (Inr result, s',
              if attempt > 1 then lg @ [Succeeded opName attempt (maxRetries opts)] else lg)
         | (Inl error, s') \<Rightarrow>
             (let isRetryable = isRetryableError (Some error) in
              if attempt = maxRetries opts \<or> \<not> isRetryable then
                (Inl (Enhanced (enhance opName attempt isRetryable (opContext opts) error)), s', lg)
              else
                retryLoop isConnected operation opName opts (attempt + 1) (Some error) s'
                  (lg @ [Retrying opName attempt (maxRetries opts) (baseDelay opts * 2 ^ nat (attempt - 1))])))
      else
        (Inl (case lastError of None \<Rightarrow> Undefined | Some e \<Rightarrow> Raw e), s, lg))"
  by pat_completeness auto
termination
  by (relation "measure (\<lambda>(isConnected, operation, opName, opts, attempt, lastError, s, lg).
        nat (maxRetries opts + 1 - attempt))") auto

declare retryLoop.simps [simp del]

definition handlePersistenceOperation ::
  "('s \<Rightarrow> bool) \<Rightarrow> ('s, 'a) operation \<Rightarrow> string \<Rightarrow> 'c options \<Rightarrow> 's
     \<Rightarrow> ('c thrown + 'a) \<times> 's \<times> logEntry list" where
  "handlePersistenceOperation isConnected operation opName opts s =
     (if \<not> enableRetry opts then
        (case handleDatabaseOperation isConnected operation (opName @ '' failed'') s of
           (Inl e, s', lg) \<Rightarrow> (Inl (Raw e), s', lg)
         | (Inr v, s', lg) \<Rightarrow> (Inr v, s', lg))
      else retryLoop isConnected operation opName opts 1 None s [])"


subsection \<open>Sample operations\<close>

definition dupKeyError :: jsError where
  "dupKeyError = \<lparr> message = Some ''E11000 duplicate key error collection: test.filemetadatas index: name_1 dup key: { name: 1 }'',
                    code = Some (NumCode 11000), ename = ''MongoServerError'' \<rparr>"

definition alwaysDuplicate :: "(nat, unit) operation" where
  "alwaysDuplicate calls = (Inl dupKeyError, Suc calls)"

definition flakyOp :: "(nat, string) operation" where
  "flakyOp calls = (if calls < 2 then Inl (newError ''socket timeout'') else Inr ''saved'', Suc calls)"

definition fatalError :: jsError where
  "fatalError = \<lparr> message = Some ''Validation failed: name is required'', code = None, ename = ''ValidationError'' \<rparr>"

definition fatalOp :: "(nat, string) operation" where
  "fatalOp calls = (Inl fatalError, Suc calls)"


section \<open>Record store (models/FileMetadata.js)\<close>

text \<open>
  A FileMetadata document. \<open>fid\<close> is \<open>_id\<close>; identifiers are compared through
  \<open>toString()\<close>, so they are strings here. \<open>ftype\<close> is the \<open>type\<close> field and
  \<open>fsize\<close> the \<open>size\<close> field (a non-negative number by the schema; the controllers
  store \<open>Buffer.byteLength\<close> of the content there, a byte count). The collection
  is the list of its documents, in the order the store returns them.
\<close>

datatype fileType = File | Folder

type_synonym objectId = string

record FileMetadata =
  fid :: objectId
  projectId :: objectId
  name :: string
  ftype :: fileType
  parentId :: "objectId option"
  s3Key :: "string option"
  fsize :: nat

type_synonym store = "FileMetadata list"

definition findById :: "store \<Rightarrow> objectId \<Rightarrow> FileMetadata option" where
  "findById st i = List.find (\<lambda>f. fid f = i) st"

text \<open>Truthiness of an identifier argument: \<open>null\<close>, \<open>undefined\<close> and the empty string are falsy.\<close>

fun truthyId :: "objectId option \<Rightarrow> bool" where
  "truthyId None = False"
| "truthyId (Some s) = (s \<noteq> [])"


section \<open>Hierarchy engine (utils/fileHierarchy.js)\<close>

subsection \<open>isFileDescendant and validateHierarchyOperation\<close>

text \<open>
  \<open>isFileDescendant\<close> recurses along \<open>parentId\<close> with no bound, so it is a partial
  function: \<open>None\<close> is the call that never returns.
\<close>

partial_function (option) isFileDescendant :: "store \<Rightarrow> objectId \<Rightarrow> objectId \<Rightarrow> bool option" where
  "isFileDescendant st fileId ancestorId =
     (case findById st fileId of
        None \<Rightarrow> Some False
      | Some file \<Rightarrow>
          (case parentId file of
             None \<Rightarrow> Some False
           | Some p \<Rightarrow> if p = ancestorId then Some True else isFileDescendant st p ancestorId))"

datatype hierarchyError = FileNotFound | CannotMoveIntoDescendant | NewParentNotFound

text \<open>
  The three \<open>throw new Error(...)\<close> of \<open>validateHierarchyOperation\<close> are the three
  errors above, in the order of the source: file lookup, descendant check (folders
  only), lookup of the new parent as a folder of the project.
\<close>

definition validateHierarchyOperation ::
  "store \<Rightarrow> objectId \<Rightarrow> objectId option \<Rightarrow> objectId \<Rightarrow> (hierarchyError + bool) option" where
  "validateHierarchyOperation st fileId newParentId projId =
     (if truthyId newParentId then
        (case findById st fileId of
           None \<Rightarrow> Some (Inl FileNotFound)
         | Some file \<Rightarrow>
             (case (if ftype file = Folder then isFileDescendant st (the newParentId) fileId else Some False) of
                None \<Rightarrow> None
              | Some True \<Rightarrow> Some (Inl CannotMoveIntoDescendant)
              | Some False \<Rightarrow>
                  (case List.find (\<lambda>f. fid f = the newParentId \<and> projectId f = projId \<and> ftype f = Folder) st of
                     None \<Rightarrow> Some (Inl NewParentNotFound)
                   | Some newParent \<Rightarrow> Some (Inr True))))
      else Some (Inr True))"

text \<open>
  The ancestor chain of a node, read off the store: \<open>nthAncestor st i k\<close> is the node
  reached from \<open>i\<close> by following \<open>parentId\<close> \<open>k\<close> times, \<open>None\<close> once the chain has
  ended (a missing node or a null parent).
\<close>

definition parentOf :: "store \<Rightarrow> objectId \<Rightarrow> objectId option" where
  "parentOf st i = (case findById st i of None \<Rightarrow> None | Some f \<Rightarrow> parentId f)"

fun nthAncestor :: "store \<Rightarrow> objectId \<Rightarrow> nat \<Rightarrow> objectId option" where
  "nthAncestor st i 0 = Some i"
| "nthAncestor st i (Suc k) = (case parentOf st i of None \<Rightarrow> None | Some p \<Rightarrow> nthAncestor st p k)"

subsection \<open>Sample stores\<close>

definition mkFolder :: "objectId \<Rightarrow> objectId \<Rightarrow> string \<Rightarrow> objectId option \<Rightarrow> FileMetadata" where
  "mkFolder i p n par = \<lparr> fid = i, projectId = p, name = n, ftype = Folder, parentId = par, s3Key = None, fsize = 0 \<rparr>"

definition mkFile :: "objectId \<Rightarrow> objectId \<Rightarrow> string \<Rightarrow> objectId option \<Rightarrow> nat \<Rightarrow> FileMetadata" where
  "mkFile i p n par sz =
     \<lparr> fid = i, projectId = p, name = n, ftype = File, parentId = par,
       s3Key = Some (''projects/'' @ p @ ''/files/'' @ i @ ''/'' @ n), fsize = sz \<rparr>"

text \<open>
  Project \<open>P\<close>: folder \<open>src\<close> holding \<open>App.js\<close> (100 bytes), \<open>index.js\<close> (250 bytes) and
  the folder \<open>lib\<close> with \<open>util.js\<close> (50 bytes); a second root folder \<open>docs\<close>.
\<close>

definition sampleStore :: store where
  "sampleStore =
     [mkFolder ''1'' ''P'' ''src'' None,
      mkFile ''2'' ''P'' ''App.js'' (Some ''1'') 100,
      mkFile ''3'' ''P'' ''index.js'' (Some ''1'') 250,
      mkFolder ''4'' ''P'' ''lib'' (Some ''1''),
      mkFile ''5'' ''P'' ''util.js'' (Some ''4'') 50,
      mkFolder ''6'' ''P'' ''docs'' None]"

text \<open>Malformed data: two folders that are each other's parent.\<close>

definition cyclicStore :: store where
  "cyclicStore = [mkFolder ''1'' ''P'' ''a'' (Some ''2''), mkFolder ''2'' ''P'' ''b'' (Some ''1'')]"

text \<open>The same two folders beside a healthy folder that holds one file of 4 bytes.\<close>

definition besideCycle :: store where
  "besideCycle = cyclicStore @ [mkFolder ''3'' ''P'' ''ok'' None, mkFile ''4'' ''P'' ''a.txt'' (Some ''3'') 4]"

text \<open>A folder whose two files have sizes that sum to \<open>2 ^ 53 + 1\<close>.\<close>

definition largeStore :: store where
  "largeStore =
     [mkFolder ''1'' ''P'' ''big'' None,
      mkFile ''2'' ''P'' ''a.bin'' (Some ''1'') (2 ^ 53 - 1),
      mkFile ''3'' ''P'' ''b.bin'' (Some ''1'') 2]"


subsection \<open>buildFileTree\<close>

text \<open>
  The objects of \<open>fileMap\<close>: the fields of the document plus the \<open>children\<close> array.
  The arrays hold references to objects of the map; every object is stored under its
  own identifier, so a reference is that identifier and the map is the store the
  references point into.
\<close>

record treeEntry =
  node :: FileMetadata
  kids :: "objectId list"

type_synonym fileMap = "objectId \<rightharpoonup> treeEntry"

text \<open>The forest returned to the caller, with the references unfolded.\<close>

datatype TreeNode = TreeNode (tfile: FileMetadata) (children: "TreeNode list")

text \<open>First pass: one map entry per file; the identifiers of the files with a null parent.\<close>

definition firstPass :: "FileMetadata list \<Rightarrow> fileMap \<times> objectId list" where
  "firstPass files =
     foldl (\<lambda>(fm, rootFiles) f.
              (fm(fid f \<mapsto> \<lparr> node = f, kids = [] \<rparr>),
               if parentId f = None then rootFiles @ [fid f] else rootFiles))
           (Map.empty, []) files"

text \<open>
  Second pass: a file whose parent is in the map is pushed onto the parent's children;
  nothing is done for the others. (The identifier of a stored parent is never the empty
  string, so \<open>parentId &&\<close> only tests for null.)
\<close>

definition secondPass :: "FileMetadata list \<Rightarrow> fileMap \<Rightarrow> fileMap" where
  "secondPass files fm0 =
     foldl (\<lambda>fm f.
              case parentId f of
                None \<Rightarrow> fm
              | Some p \<Rightarrow>
                  (case fm p of
                     None \<Rightarrow> fm
                   | Some parent \<Rightarrow> fm(p \<mapsto> parent\<lparr> kids := kids parent @ [fid f] \<rparr>)))
           fm0 files"

text \<open>
  The comparator of both \<open>sort\<close> calls. \<open>String.prototype.localeCompare\<close> belongs to
  the runtime (its order comes from the locale's collation tables), so it is a
  parameter \<open>lc\<close>: negative, zero or positive.
\<close>

definition compareNodes :: "(string \<Rightarrow> string \<Rightarrow> int) \<Rightarrow> FileMetadata \<Rightarrow> FileMetadata \<Rightarrow> int" where
  "compareNodes lc a b =
     (if ftype a \<noteq> ftype b then (if ftype a = Folder then -1 else 1)
      else lc (name a) (name b))"

text \<open>
  \<open>Array.prototype.sort\<close> with a comparator is a stable sort: insertion from the right,
  an element staying in front of the elements it does not compare greater than.
\<close>

fun insortWith :: "('a \<Rightarrow> 'a \<Rightarrow> int) \<Rightarrow> 'a \<Rightarrow> 'a list \<Rightarrow> 'a list" where
  "insortWith cmp x [] = [x]"
| "insortWith cmp x (y # ys) = (if cmp x y \<le> 0 then x # y # ys else y # insortWith cmp x ys)"

definition sortWith :: "('a \<Rightarrow> 'a \<Rightarrow> int) \<Rightarrow> 'a list \<Rightarrow> 'a list" where
  "sortWith cmp xs = foldr (insortWith cmp) xs []"

text \<open>Following the references of an array into the map.\<close>

definition deref :: "fileMap \<Rightarrow> objectId list \<Rightarrow> treeEntry list option" where
  "deref fm ids = those (map fm ids)"

text \<open>
  \<open>sortChildren\<close> sorts the children of a node in place and recurses into each child.
  Its value here is the node as the caller sees it afterwards, with the references
  unfolded. The recursion has no bound of its own; the first argument is the
  recursion depth still available, and \<open>None\<close> is the call that exhausts it.
\<close>

fun sortChildren :: "nat \<Rightarrow> (string \<Rightarrow> string \<Rightarrow> int) \<Rightarrow> fileMap \<Rightarrow> objectId \<Rightarrow> TreeNode option" where
  "sortChildren 0 lc fm i = None"
| "sortChildren (Suc k) lc fm i =
     (case fm i of
        None \<Rightarrow> None
      | Some e \<Rightarrow>
          (case deref fm (kids e) of
             None \<Rightarrow> None
           | Some es \<Rightarrow>
               map_option (TreeNode (node e))
                 (those (map (\<lambda>c. sortChildren k lc fm (fid (node c)))
                             (sortWith (\<lambda>a b. compareNodes lc (node a) (node b)) es)))))"

text \<open>\<open>buildFileTree\<close>; the input is \<open>None\<close> for a null or undefined argument.\<close>

definition buildFileTree ::
  "nat \<Rightarrow> (string \<Rightarrow> string \<Rightarrow> int) \<Rightarrow> FileMetadata list option \<Rightarrow> TreeNode list option" where
  "buildFileTree depth lc files =
     (case files of
        None \<Rightarrow> Some []
      | Some fs \<Rightarrow>
          if length fs = 0 then Some []
          else
            (let (fm1, rootFiles) = firstPass fs;
                 fm = secondPass fs fm1
             in case deref fm rootFiles of
                  None \<Rightarrow> None
                | Some rootNodes \<Rightarrow>
                    those (map (\<lambda>r. sortChildren depth lc fm (fid (node r)))
                               (sortWith (\<lambda>a b. compareNodes lc (node a) (node b)) rootNodes))))"

text \<open>The number of nodes of a tree and of a forest.\<close>

fun treeSize :: "TreeNode \<Rightarrow> nat" where
  "treeSize (TreeNode f cs) = Suc (sum_list (map treeSize cs))"

definition forestSize :: "TreeNode list \<Rightarrow> nat" where
  "forestSize ts = sum_list (map treeSize ts)"

text \<open>
  The order of siblings: a folder before a file, and within one type a name before
  the names it does not compare greater than.
\<close>

definition siblingLe :: "(string \<Rightarrow> string \<Rightarrow> int) \<Rightarrow> FileMetadata \<Rightarrow> FileMetadata \<Rightarrow> bool" where
  "siblingLe lc a b =
     ((ftype a = Folder \<and> ftype b = File) \<or> (ftype a = ftype b \<and> lc (name a) (name b) \<le> 0))"

fun levelsSorted :: "(string \<Rightarrow> string \<Rightarrow> int) \<Rightarrow> TreeNode \<Rightarrow> bool" where
  "levelsSorted lc (TreeNode f cs) =
     (sorted_wrt (\<lambda>a b. siblingLe lc (tfile a) (tfile b)) cs \<and> list_all (levelsSorted lc) cs)"

definition forestSorted :: "(string \<Rightarrow> string \<Rightarrow> int) \<Rightarrow> TreeNode list \<Rightarrow> bool" where
  "forestSorted lc ts =
     (sorted_wrt (\<lambda>a b. siblingLe lc (tfile a) (tfile b)) ts \<and> list_all (levelsSorted lc) ts)"

text \<open>
  A comparator to run the examples with: names compared letter by letter after
  lowering, by character code.
\<close>

definition caselessCompare :: "string \<Rightarrow> string \<Rightarrow> int" where
  "caselessCompare a b =
     (let ka = map (of_char :: char \<Rightarrow> nat) (toLowerCase a);
          kb = map (of_char :: char \<Rightarrow> nat) (toLowerCase b)
      in if ka < kb then -1 else if ka = kb then 0 else 1)"

text \<open>The sample project as a flat list in shuffled order, and a list with an orphan.\<close>

definition shuffledFiles :: "FileMetadata list" where
  "shuffledFiles =
     [mkFile ''5'' ''P'' ''util.js'' (Some ''4'') 50,
      mkFile ''3'' ''P'' ''index.js'' (Some ''1'') 250,
      mkFolder ''6'' ''P'' ''docs'' None,
      mkFolder ''4'' ''P'' ''lib'' (Some ''1''),
      mkFile ''7'' ''P'' ''README.md'' None 10,
      mkFile ''2'' ''P'' ''App.js'' (Some ''1'') 100,
      mkFolder ''1'' ''P'' ''src'' None]"

definition orphanFiles :: "FileMetadata list" where
  "orphanFiles =
     [mkFolder ''1'' ''P'' ''src'' None,
      mkFile ''2'' ''P'' ''App.js'' (Some ''9'') 100]"


text \<open>
  What both \<open>sort\<close> calls need from \<open>localeCompare\<close> to produce an ordered array: any
  two names are comparable, and the order is transitive.
\<close>

definition validCompare :: "(string \<Rightarrow> string \<Rightarrow> int) \<Rightarrow> bool" where
  "validCompare lc =
     ((\<forall>a b. lc a b \<le> 0 \<or> lc b a \<le> 0) \<and>
      (\<forall>a b c. lc a b \<le> 0 \<and> lc b c \<le> 0 \<longrightarrow> lc a c \<le> 0))"

text \<open>Every object of the map is stored under its own identifier.\<close>

definition keyed :: "fileMap \<Rightarrow> bool" where
  "keyed fm = (\<forall>i e. fm i = Some e \<longrightarrow> fid (node e) = i)"


subsection \<open>checkNamingConflict and generateUniqueName\<close>

text \<open>
  The filter of \<open>checkNamingConflict\<close>: same project, same name, same parent
  (\<open>parentId || null\<close>), and not the excluded document when \<open>excludeId\<close> is given.
\<close>

definition matchesQuery :: "objectId \<Rightarrow> string \<Rightarrow> objectId option \<Rightarrow> objectId option \<Rightarrow> FileMetadata \<Rightarrow> bool" where
  "matchesQuery projId nm par excludeId f =
     (projectId f = projId \<and> name f = nm \<and>
      parentId f = (if truthyId par then par else None) \<and>
      (if truthyId excludeId then fid f \<noteq> the excludeId else True))"

definition checkNamingConflict :: "store \<Rightarrow> objectId \<Rightarrow> string \<Rightarrow> objectId option \<Rightarrow> objectId option \<Rightarrow> bool" where
  "checkNamingConflict st projId nm par excludeId =
     (List.find (matchesQuery projId nm par excludeId) st \<noteq> None)"

text \<open>\<open>String.prototype.split\<close> on one character, \<open>lastIndexOf\<close> (-1 when absent).\<close>

fun splitStr :: "char \<Rightarrow> string \<Rightarrow> string list" where
  "splitStr c [] = [[]]"
| "splitStr c (x # xs) =
     (if x = c then [] # splitStr c xs
      else (case splitStr c xs of [] \<Rightarrow> [[x]] | w # ws \<Rightarrow> (x # w) # ws))"

fun lastIndexOf :: "char \<Rightarrow> string \<Rightarrow> int" where
  "lastIndexOf c [] = -1"
| "lastIndexOf c (x # xs) =
     (let r = lastIndexOf c xs in if r \<ge> 0 then r + 1 else if x = c then 0 else -1)"

text \<open>The two conditional expressions of the loop body and the template literal.\<close>

definition extension :: "string \<Rightarrow> string" where
  "extension baseName = (if CHR ''.'' \<in> set baseName then CHR ''.'' # last (splitStr CHR ''.'' baseName) else [])"

definition nameWithoutExt :: "string \<Rightarrow> string" where
  "nameWithoutExt baseName =
     (if CHR ''.'' \<in> set baseName then take (nat (lastIndexOf CHR ''.'' baseName)) baseName else baseName)"

definition candidate :: "string \<Rightarrow> nat \<Rightarrow> string" where
  "candidate baseName counter = nameWithoutExt baseName @ '' ('' @ stringOfNat counter @ '')'' @ extension baseName"


text \<open>
  The candidate names are pairwise different (decimal rendering is injective), so only
  finitely many of them are taken in a store; this is what ends the loop.
\<close>

definition natOfString :: "string \<Rightarrow> nat" where
  "natOfString s = foldl (\<lambda>a c. 10 * a + (of_char c - 48)) 0 s"

lemma natOfString_stringOfNat: "natOfString (stringOfNat n) = n"
proof (induction n rule: stringOfNat.induct)
  case (1 n)
  show ?case
  proof (cases "n < 10")
    case True
    then show ?thesis
      by (subst stringOfNat.simps) (simp add: natOfString_def digitChar_def)
  next
    case False
    with 1 have ih: "natOfString (stringOfNat (n div 10)) = n div 10" by simp
    have d: "of_char (digitChar (n mod 10)) = 48 + n mod 10"
      by (simp add: digitChar_def)
    show ?thesis
      using False ih by (subst stringOfNat.simps) (simp add: natOfString_def d)
  qed
qed

lemma inj_stringOfNat: "stringOfNat a = stringOfNat b \<Longrightarrow> a = b"
  by (metis natOfString_stringOfNat)

lemma candidate_inj: "candidate b m = candidate b n \<Longrightarrow> m = n"
  by (auto simp: candidate_def dest: inj_stringOfNat)


lemma splitStr_notin: "c \<notin> set s \<Longrightarrow> splitStr c s = [s]"
  by (induction s) auto

lemma lastIndexOf_notin: "c \<notin> set s \<Longrightarrow> lastIndexOf c s = -1"
  by (induction s) (auto simp: Let_def)

lemma lastIndexOf_in: "c \<in> set s \<Longrightarrow> 0 \<le> lastIndexOf c s"
  by (induction s) (auto simp: Let_def)

lemma splitStr_nonempty: "splitStr c s \<noteq> []"
  by (induction s) (auto split: list.splits)

lemma length_splitStr_Cons:
  "length (splitStr c (x # xs)) = (if x = c then Suc (length (splitStr c xs)) else length (splitStr c xs))"
  using splitStr_nonempty[of c xs] by (cases "splitStr c xs") auto

lemma length_splitStr_in: "c \<in> set xs \<Longrightarrow> 2 \<le> length (splitStr c xs)"
proof (induction xs)
  case Nil
  then show ?case by simp
next
  case (Cons y ys)
  show ?case
  proof (cases "c \<in> set ys")
    case True
    from Cons.IH[OF True] show ?thesis by (simp only: length_splitStr_Cons split: if_splits) simp
  next
    case False
    with Cons.prems have "y = c" by simp
    with False show ?thesis by (simp add: splitStr_notin)
  qed
qed

lemma last_splitStr_Cons:
  "last (splitStr c (x # xs)) = (if c \<in> set xs then last (splitStr c xs) else if x = c then xs else x # xs)"
proof (cases "c \<in> set xs")
  case False
  then show ?thesis by (simp add: splitStr_notin)
next
  case True
  from length_splitStr_in[OF True] obtain w w' ws where "splitStr c xs = w # w' # ws"
    by (cases "splitStr c xs"; cases "tl (splitStr c xs)") auto
  with True show ?thesis by simp
qed

lemma split_at_last:
  "c \<in> set s \<Longrightarrow>
     s = take (nat (lastIndexOf c s)) s @ c # last (splitStr c s) \<and> c \<notin> set (last (splitStr c s))"
proof (induction s)
  case Nil
  then show ?case by simp
next
  case (Cons x xs)
  show ?case
  proof (cases "c \<in> set xs")
    case True
    from Cons.IH[OF True] have ih: "xs = take (nat (lastIndexOf c xs)) xs @ c # last (splitStr c xs)"
      and ni: "c \<notin> set (last (splitStr c xs))" by simp_all
    have nn: "0 \<le> lastIndexOf c xs" using True by (rule lastIndexOf_in)
    have li: "lastIndexOf c (x # xs) = lastIndexOf c xs + 1" using nn by (simp add: Let_def)
    have tk: "take (nat (lastIndexOf c (x # xs))) (x # xs) = x # take (nat (lastIndexOf c xs)) xs"
      using nn by (simp add: li nat_add_distrib)
    have la: "last (splitStr c (x # xs)) = last (splitStr c xs)"
      using True by (subst last_splitStr_Cons) simp
    show ?thesis unfolding tk la using ih ni by simp
  next
    case False
    with Cons.prems have xc: "x = c" by simp
    have li: "lastIndexOf c (x # xs) = 0" using False xc by (simp add: Let_def lastIndexOf_notin)
    have la: "last (splitStr c (x # xs)) = xs"
      using False xc by (subst last_splitStr_Cons) simp
    show ?thesis unfolding li la using False xc by simp
  qed
qed

lemma stem_ext_join: "nameWithoutExt b @ extension b = b"
proof (cases "CHR ''.'' \<in> set b")
  case True
  from split_at_last[OF True] show ?thesis
    using True by (simp add: nameWithoutExt_def extension_def)
next
  case False
  then show ?thesis by (simp add: nameWithoutExt_def extension_def)
qed

lemma length_candidate: "length (candidate b n) > length b"
proof -
  have "length (candidate b n) = length (nameWithoutExt b @ extension b) + 3 + length (stringOfNat n)"
    by (simp add: candidate_def)
  then show ?thesis by (simp add: stem_ext_join)
qed

lemma candidate_neq_base: "candidate b n \<noteq> b"
  using length_candidate[of b n] by auto

lemma conflict_name_in_store:
  assumes "checkNamingConflict st p nm par ex"
  shows "nm \<in> name ` set st"
proof -
  from assms obtain f where "f \<in> set st" "name f = nm"
    unfolding checkNamingConflict_def matchesQuery_def find_None_iff by blast
  then show ?thesis by force
qed

lemma finite_conflicts: "finite {n. checkNamingConflict st p (candidate b n) par ex}"
proof -
  have "{n. checkNamingConflict st p (candidate b n) par ex} \<subseteq> candidate b -` (name ` set st)"
    using conflict_name_in_store by auto
  moreover have "finite (candidate b -` (name ` set st))"
    by (rule finite_vimageI) (auto simp: inj_on_def dest: candidate_inj)
  ultimately show ?thesis by (rule finite_subset)
qed

text \<open>
  The \<open>while\<close> loop of \<open>generateUniqueName\<close> on its two variables \<open>name\<close> and
  \<open>counter\<close>; it returns both. \<open>counter\<close> starts at 1 and is incremented after every
  check that found a conflict, so its final value is the number of conflict checks made.
\<close>

function uniqueNameLoop ::
  "store \<Rightarrow> objectId \<Rightarrow> string \<Rightarrow> objectId option \<Rightarrow> objectId option \<Rightarrow> string \<Rightarrow> nat \<Rightarrow> string \<times> nat" where
  "uniqueNameLoop st projId baseName par excludeId nm counter =
     (if checkNamingConflict st projId nm par excludeId
      then uniqueNameLoop st projId baseName par excludeId (candidate baseName counter) (counter + 1)
      else (nm, counter))"
  by pat_completeness auto
termination
proof (relation "measure (\<lambda>(st, projId, baseName, par, excludeId, nm, counter).
          2 * card {n. counter \<le> n \<and> checkNamingConflict st projId (candidate baseName n) par excludeId}
          + (if checkNamingConflict st projId nm par excludeId then 1 else 0))", goal_cases)
  case 1
  show ?case by simp
next
  case (2 st projId baseName par excludeId nm counter)
  let ?A = "\<lambda>c. {n. c \<le> n \<and> checkNamingConflict st projId (candidate baseName n) par excludeId}"
  have fin: "finite (?A c)" for c
    by (rule finite_subset[OF _ finite_conflicts[of st projId baseName par excludeId]]) auto
  have split: "?A counter = ?A (counter + 1) \<union>
                 (if checkNamingConflict st projId (candidate baseName counter) par excludeId then {counter} else {})"
    by (auto simp: Suc_le_eq order_le_less)
  have "card (?A counter) = card (?A (counter + 1)) +
          (if checkNamingConflict st projId (candidate baseName counter) par excludeId then 1 else 0)"
    by (subst split) (auto simp: fin)
  with 2 show ?case by simp
qed


declare uniqueNameLoop.simps [simp del]

definition generateUniqueName :: "store \<Rightarrow> objectId \<Rightarrow> string \<Rightarrow> objectId option \<Rightarrow> objectId option \<Rightarrow> string" where
  "generateUniqueName st projId baseName par excludeId =
     fst (uniqueNameLoop st projId baseName par excludeId baseName 1)"

definition conflictChecks :: "store \<Rightarrow> objectId \<Rightarrow> string \<Rightarrow> objectId option \<Rightarrow> objectId option \<Rightarrow> nat" where
  "conflictChecks st projId baseName par excludeId =
     snd (uniqueNameLoop st projId baseName par excludeId baseName 1)"

text \<open>
  The first \<open>k\<close> names the loop checks, and the documents matched by the conflict
  query for one of a list of names.
\<close>

definition triedNames :: "string \<Rightarrow> nat \<Rightarrow> string list" where
  "triedNames baseName k = baseName # map (candidate baseName) [1..<k]"

definition conflictingSiblings ::
  "store \<Rightarrow> objectId \<Rightarrow> objectId option \<Rightarrow> objectId option \<Rightarrow> string list \<Rightarrow> FileMetadata list" where
  "conflictingSiblings st projId par excludeId names =
     filter (\<lambda>f. \<exists>nm \<in> set names. matchesQuery projId nm par excludeId f) st"

definition namesStore :: store where
  "namesStore =
     [mkFile ''1'' ''P'' ''App.js'' None 10,
      mkFile ''2'' ''P'' ''App (1).js'' None 10,
      mkFile ''3'' ''P'' ''App (3).js'' None 10,
      mkFile ''4'' ''Q'' ''App (2).js'' None 10,
      mkFolder ''5'' ''P'' ''src'' None,
      mkFile ''6'' ''P'' ''App (2).js'' (Some ''5'') 10]"


subsection \<open>getAllDescendants and calculateFolderSize\<close>

text \<open>The query \<open>FileMetadata.find({ parentId })\<close>: the documents whose parent is \<open>p\<close>.\<close>

definition kidsOf :: "store \<Rightarrow> objectId \<Rightarrow> FileMetadata list" where
  "kidsOf st p = filter (\<lambda>f. parentId f = Some p) st"

text \<open>A \<open>for ... of\<close> loop over an array whose body may fail to return.\<close>

fun forEach :: "('a \<Rightarrow> 's \<Rightarrow> 's option) \<Rightarrow> 'a list \<Rightarrow> 's \<Rightarrow> 's option" where
  "forEach body [] s = Some s"
| "forEach body (x # xs) s = (case body x s of None \<Rightarrow> None | Some s' \<Rightarrow> forEach body xs s')"

text \<open>
  The inner function \<open>getChildren\<close> pushes every child onto the shared array
  \<open>descendants\<close> and recurses into the folders. The array is passed in and returned.
  The recursion has no bound of its own; the first argument is the recursion depth
  still available, and \<open>None\<close> is the call that exhausts it.
\<close>

fun getChildren :: "nat \<Rightarrow> store \<Rightarrow> objectId \<Rightarrow> FileMetadata list \<Rightarrow> FileMetadata list option" where
  "getChildren 0 st p descendants = None"
| "getChildren (Suc depth) st p descendants =
     forEach (\<lambda>child acc.
                if ftype child = Folder then getChildren depth st (fid child) (acc @ [child])
                else Some (acc @ [child]))
             (kidsOf st p) descendants"

definition getAllDescendants :: "nat \<Rightarrow> store \<Rightarrow> objectId \<Rightarrow> FileMetadata list option" where
  "getAllDescendants depth st folderId = getChildren depth st folderId []"

text \<open>
  The total is a Number of the runtime, an IEEE 754 double, and \<open>+\<close> rounds. The values
  that occur are the non-negative integers among the doubles and \<open>Infinity\<close>. Every
  integer up to \<open>2 ^ 53\<close> is a double; above, a double has 53 significant bits, so the
  doubles of bit length \<open>l\<close> are the multiples of \<open>2 ^ (l - 53)\<close>. \<open>toNumber\<close> rounds an
  exact sum to the nearest double, a tie to the one with the even significand, and to
  \<open>Infinity\<close> from \<open>2 ^ 1024\<close> on.
\<close>

datatype number = Finite nat | PlusInfinity

fun bitLength :: "nat \<Rightarrow> nat" where
  "bitLength n = (if n = 0 then 0 else Suc (bitLength (n div 2)))"

declare bitLength.simps [simp del]

definition nearestDouble :: "nat \<Rightarrow> nat" where
  "nearestDouble n =
     (let ulp = 2 ^ (bitLength n - 53); q = n div ulp; r = n mod ulp
      in if 2 * r < ulp \<or> (2 * r = ulp \<and> even q) then q * ulp else (q + 1) * ulp)"

definition toNumber :: "nat \<Rightarrow> number" where
  "toNumber n =
     (if n \<le> 2 ^ 53 then Finite n
      else if nearestDouble n < 2 ^ 1024 then Finite (nearestDouble n)
      else PlusInfinity)"

fun addNumber :: "number \<Rightarrow> nat \<Rightarrow> number" where
  "addNumber (Finite tot) sz = toNumber (tot + sz)"
| "addNumber PlusInfinity sz = PlusInfinity"

text \<open>
  \<open>files.reduce((total, file) => total + (file.size || 0), 0)\<close> over the files; a size
  of \<open>0\<close> is the only falsy byte count, and \<open>|| 0\<close> leaves it \<open>0\<close>.
\<close>

definition calculateFolderSize :: "nat \<Rightarrow> store \<Rightarrow> objectId \<Rightarrow> number option" where
  "calculateFolderSize depth st folderId =
     (case getAllDescendants depth st folderId of
        None \<Rightarrow> None
      | Some descendants \<Rightarrow>
          Some (foldl (\<lambda>total f. addNumber total (fsize f)) (Finite 0)
                      (filter (\<lambda>item. ftype item = File) descendants)))"

text \<open>What one iteration of the loop adds to the array: the child, then its own descendants.\<close>

definition visitChild :: "nat \<Rightarrow> store \<Rightarrow> FileMetadata \<Rightarrow> FileMetadata list option" where
  "visitChild d st c = map_option ((#) c) (if ftype c = Folder then getChildren d st (fid c) [] else Some [])"

text \<open>
  The nodes that have \<open>p\<close> as their \<open>j\<close>-th ancestor, and the nodes that have \<open>p\<close>
  among their proper ancestors.
\<close>

definition level :: "store \<Rightarrow> objectId \<Rightarrow> nat \<Rightarrow> FileMetadata list" where
  "level st p j = filter (\<lambda>f. nthAncestor st (fid f) j = Some p) st"

definition levelsSum :: "store \<Rightarrow> objectId \<Rightarrow> nat \<Rightarrow> FileMetadata multiset" where
  "levelsSum st p d = sum_list (map (\<lambda>j. mset (level st p j)) [1..<Suc d])"

definition properDescendant :: "store \<Rightarrow> objectId \<Rightarrow> FileMetadata \<Rightarrow> bool" where
  "properDescendant st p f = (\<exists>k. nthAncestor st (fid f) (Suc k) = Some p)"

text \<open>
  Two invariants of the data model, as far as the traversal relies on them: no node has
  a file as its parent, and every ancestor chain ends (no node is its own ancestor).
\<close>

definition parentsAreFolders :: "store \<Rightarrow> bool" where
  "parentsAreFolders st = list_all (\<lambda>g. ftype g = File \<longrightarrow> kidsOf st (fid g) = []) st"

definition chainsEnd :: "store \<Rightarrow> bool" where
  "chainsEnd st = list_all (\<lambda>f. nthAncestor st (fid f) (Suc (length st)) = None) st"


subsection \<open>The forest of buildFileTree, node by node\<close>

text \<open>
  The map after both passes, and the object it holds for a file of the input: the
  file with the identifiers of the files that name it as their parent.
\<close>

definition builtMap :: "FileMetadata list \<Rightarrow> fileMap" where
  "builtMap fs = secondPass fs (fst (firstPass fs))"

definition entryOf :: "FileMetadata list \<Rightarrow> FileMetadata \<Rightarrow> treeEntry" where
  "entryOf fs f = \<lparr> node = f, kids = map fid (kidsOf fs (fid f)) \<rparr>"

text \<open>The nodes of a tree and of a forest, parents first.\<close>

fun treeNodes :: "TreeNode \<Rightarrow> FileMetadata list" where
  "treeNodes (TreeNode f cs) = f # concat (map treeNodes cs)"

definition forestNodes :: "TreeNode list \<Rightarrow> FileMetadata list" where
  "forestNodes ts = concat (map treeNodes ts)"

text \<open>
  A tree is well placed when the children of every node are the files of the input
  whose \<open>parentId\<close> is that node, each once.
\<close>

fun wellPlaced :: "FileMetadata list \<Rightarrow> TreeNode \<Rightarrow> bool" where
  "wellPlaced fs (TreeNode f cs) =
     (mset (map tfile cs) = mset (kidsOf fs (fid f)) \<and> list_all (wellPlaced fs) cs)"

text \<open>
  A file is rooted when its ancestor chain leads to a file of the input with a null
  parent. The input has no dangling reference when every non-null \<open>parentId\<close> is the
  identifier of a file of the input.
\<close>

definition rooted :: "FileMetadata list \<Rightarrow> FileMetadata \<Rightarrow> bool" where
  "rooted fs f = (\<exists>r \<in> set fs. parentId r = None \<and> (\<exists>j. nthAncestor fs (fid f) j = Some (fid r)))"

definition noDangling :: "FileMetadata list \<Rightarrow> bool" where
  "noDangling fs = list_all (\<lambda>f. case parentId f of None \<Rightarrow> True | Some p \<Rightarrow> p \<in> fid ` set fs) fs"


section \<open>Project deletion (controllers/projectController.js, services/s3Service.js)\<close>

text \<open>
  The two stores as the controller sees them: the identifiers of the Project documents,
  the FileMetadata collection, and the keys of the objects in the blob store.
\<close>

record world =
  projects :: "objectId list"
  metadata :: store
  blobs :: "string list"

text \<open>
  The blob store is an external service. Its reply to one \<open>deleteObjects\<close> request is
  a parameter: the request throws (also when the client was never configured), or it
  is answered, with the keys listed under \<open>Errors\<close> left in place.
\<close>

datatype s3Reply = S3Throws jsError | S3Answers "string list"

text \<open>\<open>s3Service.deleteFiles\<close>: nothing to do for no keys; a thrown error is rethrown wrapped.\<close>

definition deleteFiles :: "s3Reply \<Rightarrow> string list \<Rightarrow> string list \<Rightarrow> (jsError + unit) \<times> string list" where
  "deleteFiles reply keys bs =
     (if length keys = 0 then (Inr (), bs)
      else (case reply of
              S3Throws e \<Rightarrow> (Inl (newError (''Failed to delete files: '' @ messageText e)), bs)
            | S3Answers failed \<Rightarrow> (Inr (), filter (\<lambda>k. k \<notin> set keys \<or> k \<in> set failed) bs)))"

text \<open>The JSON answer of \<open>deleteProject\<close>: success with the two counts, or a status and a code.\<close>

datatype response = Deleted nat nat | Failure int string

text \<open>Truthiness of \<open>file.s3Key\<close>.\<close>

definition hasS3Key :: "FileMetadata \<Rightarrow> bool" where
  "hasS3Key f = (case s3Key f of None \<Rightarrow> False | Some k \<Rightarrow> k \<noteq> [])"

text \<open>
  \<open>deleteProject\<close>. \<open>dbUp n\<close> tells whether the \<open>n\<close>-th database operation wrapped by
  \<open>handleDatabaseOperation\<close> goes through; a failed one throws an error without status
  code, answered with 500. The two ways of looking the project up by \<open>_id\<close> find the
  same document, so they are one lookup here.
\<close>

definition deleteProject :: "(nat \<Rightarrow> bool) \<Rightarrow> s3Reply \<Rightarrow> objectId \<Rightarrow> world \<Rightarrow> response \<times> world" where
  "deleteProject dbUp reply pid w =
     (if \<not> dbUp 0 then (Failure 500 ''DELETE_PROJECT_FAILED'', w)
      else if pid \<notin> set (projects w) then (Failure 404 ''PROJECT_NOT_FOUND'', w)
      else if \<not> dbUp 1 then (Failure 500 ''DELETE_PROJECT_FAILED'', w)
      else
        (let files = filter (\<lambda>f. projectId f = pid) (metadata w);
             s3Keys = map (\<lambda>f. the (s3Key f)) (filter hasS3Key files);
             w1 = (if length s3Keys > 0 then w\<lparr> blobs := snd (deleteFiles reply s3Keys (blobs w)) \<rparr> else w)
         in if \<not> dbUp 2 then (Failure 500 ''DELETE_PROJECT_FAILED'', w1)
            else
              (let w2 = w1\<lparr> metadata := filter (\<lambda>f. projectId f \<noteq> pid) (metadata w1) \<rparr>
               in if \<not> dbUp 3 then (Failure 500 ''DELETE_PROJECT_FAILED'', w2)
                  else (Deleted (length files) (length s3Keys),
                        w2\<lparr> projects := filter (\<lambda>p. p \<noteq> pid) (projects w2) \<rparr>))))"

text \<open>The blobs associated with the files of a project.\<close>

definition projectBlobKeys :: "objectId \<Rightarrow> store \<Rightarrow> string list" where
  "projectBlobKeys pid st = map (\<lambda>f. the (s3Key f)) (filter hasS3Key (filter (\<lambda>f. projectId f = pid) st))"

definition sampleWorld :: world where
  "sampleWorld =
     \<lparr> projects = [''P'', ''Q''],
       metadata = sampleStore @ [mkFile ''8'' ''Q'' ''notes.txt'' None 7],
       blobs = [''projects/P/files/2/App.js'', ''projects/P/files/3/index.js'',
                ''projects/P/files/5/util.js'', ''projects/Q/files/8/notes.txt''] \<rparr>"


section \<open>Properties of the resilience layer\<close>

lemma listed_11000: "code e = Some (NumCode 11000) \<Longrightarrow> isRetryableError (Some e)"
  by (simp add: isRetryableError_def retryableCodes_def Let_def)

text \<open>
  An operation that throws the same retryable error at every call is called once per
  iteration until \<open>attempt = maxRetries\<close>, where the enriched failure is thrown.
\<close>

lemma retryLoop_all_retryable:
  fixes operation :: "('s, 'a) operation"
  assumes conn: "\<And>s. isConnected s"
      and fails: "\<And>s. operation s = (Inl e, step s)"
      and retr: "isRetryableError (Some e)"
  shows "attempt \<le> maxRetries opts \<Longrightarrow>
     \<exists>lg'. retryLoop isConnected operation nm opts attempt le s lg =
       (Inl (Enhanced (enhance nm (maxRetries opts) True (opContext opts) e)),
        (step ^^ nat (maxRetries opts + 1 - attempt)) s, lg')"
proof (induction "nat (maxRetries opts - attempt)" arbitrary: attempt le s lg)
  case 0
  then have eq: "attempt = maxRetries opts" by simp
  show ?case
    by (subst retryLoop.simps) (simp add: eq conn fails retr)
next
  case (Suc k)
  then have lt: "attempt < maxRetries opts" by simp
  have k: "k = nat (maxRetries opts - (attempt + 1))" using Suc(2) by simp
  have le': "attempt + 1 \<le> maxRetries opts" using lt by simp
  from Suc(1)[OF k le'] obtain lg' where
    ih: "retryLoop isConnected operation nm opts (attempt + 1) (Some e) (step s)
           (lg @ [Retrying nm attempt (maxRetries opts) (baseDelay opts * 2 ^ nat (attempt - 1))]) =
         (Inl (Enhanced (enhance nm (maxRetries opts) True (opContext opts) e)),
          (step ^^ nat (maxRetries opts + 1 - (attempt + 1))) (step s), lg')"
    by blast
  have n: "nat (maxRetries opts + 1 - attempt) = Suc (nat (maxRetries opts + 1 - (attempt + 1)))"
    using lt by simp
  show ?case
    apply (subst retryLoop.simps)
    using lt apply (simp add: conn fails retr ih n funpow_swap1)
    done
qed

text \<open>
  C2 (as the code has it). The classifier lists the duplicate-key code 11000 among the
  retryable codes, so a store error carrying that code is classified retryable, and an
  operation wrapped by the retry layer that keeps failing with it is called
  \<open>maxRetries\<close> times (the world has advanced by that many calls) before the enriched
  failure is raised, with \<open>attempts = maxRetries\<close> and \<open>retryable = true\<close>.
\<close>

theorem C2_duplicate_key_is_retried:
  fixes operation :: "('s, 'a) operation"
  assumes "code e = Some (NumCode 11000)"
      and "\<And>s. isConnected s"
      and "\<And>s. operation s = (Inl e, step s)"
      and "enableRetry opts" and "1 \<le> maxRetries opts"
  shows "isRetryableError (Some e) \<and>
         (\<exists>err lg. handlePersistenceOperation isConnected operation nm opts s =
                     (Inl (Enhanced err), (step ^^ nat (maxRetries opts)) s, lg) \<and>
                   attempts err = maxRetries opts \<and> retryable err \<and> originalError err = e)"
proof -
  have r: "isRetryableError (Some e)" using assms(1) by (rule listed_11000)
  have "\<exists>lg. retryLoop isConnected operation nm opts 1 None s [] =
       (Inl (Enhanced (enhance nm (maxRetries opts) True (opContext opts) e)),
        (step ^^ nat (maxRetries opts + 1 - 1)) s, lg)"
    using assms(2) assms(3) r assms(5) by (rule retryLoop_all_retryable)
  then show ?thesis
    using r assms(4) by (auto simp add: handlePersistenceOperation_def enhance_def)
qed

theorem C2_duplicate_key_is_retried_witness:
  "isRetryableError (Some dupKeyError) \<and>
   (\<exists>err lg. handlePersistenceOperation (\<lambda>_. True) alwaysDuplicate ''File create (f1)'' (defaultOptions ()) 0 =
               (Inl (Enhanced err), 3, lg) \<and>
             attempts err = 3 \<and> retryable err \<and> originalError err = dupKeyError)"
proof -
  have c: "code dupKeyError = Some (NumCode 11000)" by (simp add: dupKeyError_def)
  have o: "\<And>s. alwaysDuplicate s = (Inl dupKeyError, Suc s)" by (simp add: alwaysDuplicate_def)
  have m: "enableRetry (defaultOptions ())" "1 \<le> maxRetries (defaultOptions ())"
          "maxRetries (defaultOptions ()) = 3"
    by (simp_all add: defaultOptions_def)
  have three: "(Suc ^^ nat 3) 0 = 3" by (simp add: eval_nat_numeral)
  show ?thesis
    using C2_duplicate_key_is_retried [of dupKeyError "\<lambda>_. True" alwaysDuplicate Suc "defaultOptions ()"
            "''File create (f1)''" 0, OF c _ o m(1) m(2)] three
    by (simp add: m(3))
qed

text \<open>
  C2, the claim as stated, fails: a write rejected with the duplicate-key error is not
  raised at once as fatal. The operation is called three times (the call counter ends
  at 3, two retry warnings are logged) and the failure is flagged retryable.
\<close>

theorem C2_duplicate_key_not_fatal:
  "isRetryableError (Some dupKeyError) \<and>
   handlePersistenceOperation (\<lambda>_. True) alwaysDuplicate ''File create (f1)'' (defaultOptions ()) 0 =
     (Inl (Enhanced (enhance ''File create (f1)'' 3 True () dupKeyError)), 3,
      [Retrying ''File create (f1)'' 1 3 1000, Retrying ''File create (f1)'' 2 3 2000])"
proof -
  have r: "isRetryableError (Some dupKeyError)"
    by (rule listed_11000) (simp add: dupKeyError_def)
  show ?thesis
    using r by (simp add: handlePersistenceOperation_def defaultOptions_def retryLoop.simps alwaysDuplicate_def)
qed

text \<open>
  C5. With the default options (and the caller's context): an operation that is reached
  three times, throws a retryable error the first two times and returns \<open>v\<close> the third
  time makes the wrapper return \<open>v\<close>, and the console records the success on attempt 3
  of 3; an operation whose first call throws a non-retryable error is not called again
  (the world is the one left by that single call), and the failure raised carries
  \<open>attempts = 1\<close>, \<open>retryable = false\<close>, the originating error and the context.
\<close>

theorem C5_withRetry_transient_then_success_and_fatal:
  fixes operation :: "('s, 'a) operation" and ctx :: 'c
  shows "(isConnected s0 \<and> operation s0 = (Inl e1, s1) \<and> isRetryableError (Some e1) \<and>
          isConnected s1 \<and> operation s1 = (Inl e2, s2) \<and> isRetryableError (Some e2) \<and>
          isConnected s2 \<and> operation s2 = (Inr v, s3) \<longrightarrow>
          handlePersistenceOperation isConnected operation nm (defaultOptions ctx) s0 =
            (Inr v, s3, [Retrying nm 1 3 1000, Retrying nm 2 3 2000, Succeeded nm 3 3]))
       \<and> (isConnected s0 \<and> operation s0 = (Inl e, s1) \<and> \<not> isRetryableError (Some e) \<longrightarrow>
          (\<exists>err. handlePersistenceOperation isConnected operation nm (defaultOptions ctx) s0 =
                   (Inl (Enhanced err), s1, []) \<and>
                 attempts err = 1 \<and> retryable err = False \<and> originalError err = e \<and> econtext err = ctx))"
  by (simp add: handlePersistenceOperation_def defaultOptions_def retryLoop.simps enhance_def)

theorem C5_withRetry_witness:
  "handlePersistenceOperation (\<lambda>_. True) flakyOp ''Project save (p1)'' (defaultOptions ''save'') 0 =
     (Inr ''saved'', 3, [Retrying ''Project save (p1)'' 1 3 1000, Retrying ''Project save (p1)'' 2 3 2000,
                         Succeeded ''Project save (p1)'' 3 3])
   \<and> (\<exists>err. handlePersistenceOperation (\<lambda>_. True) fatalOp ''Project save (p1)'' (defaultOptions ''save'') 0 =
                   (Inl (Enhanced err), 1, []) \<and>
                 attempts err = 1 \<and> retryable err = False \<and> originalError err = fatalError \<and> econtext err = ''save'')"
proof -
  have r: "isRetryableError (Some (newError ''socket timeout''))"
    by (simp add: isRetryableError_def newError_def toLowerCase_def lowerChar_def Let_def)
  have f: "\<not> isRetryableError (Some fatalError)"
    by (simp add: isRetryableError_def fatalError_def toLowerCase_def lowerChar_def Let_def)
  have a: "flakyOp 0 = (Inl (newError ''socket timeout''), 1)" "flakyOp 1 = (Inl (newError ''socket timeout''), 2)"
     "flakyOp 2 = (Inr ''saved'', 3)" "fatalOp 0 = (Inl fatalError, 1)"
    by (simp_all add: flakyOp_def fatalOp_def)
  show ?thesis
    using C5_withRetry_transient_then_success_and_fatal
            [of "\<lambda>_. True" 0 flakyOp "newError ''socket timeout''" 1 "newError ''socket timeout''" 2 "''saved''" 3
                "''Project save (p1)''" "''save''"]
          C5_withRetry_transient_then_success_and_fatal
            [of "\<lambda>_. True" 0 fatalOp _ 1 _ _ _ _ "''Project save (p1)''" "''save''" fatalError]
          r f a
    by simp
qed

section \<open>Properties of the ancestor walk and of move validation\<close>

lemma walk_returns:
  "nthAncestor st c (Suc k) = None \<or> nthAncestor st c (Suc k) = Some a \<Longrightarrow> \<exists>b. isFileDescendant st c a = Some b"
proof (induction k arbitrary: c)
  case 0
  then show ?case
    by (subst isFileDescendant.simps) (auto simp: parentOf_def split: option.splits)
next
  case (Suc k)
  show ?case
  proof (cases "parentOf st c")
    case None
    then show ?thesis by (subst isFileDescendant.simps) (auto simp: parentOf_def split: option.splits)
  next
    case (Some p)
    with Suc.prems have "nthAncestor st p (Suc k) = None \<or> nthAncestor st p (Suc k) = Some a" by simp
    from Suc.IH[OF this] obtain b where "isFileDescendant st p a = Some b" by blast
    with Some show ?thesis by (subst isFileDescendant.simps) (auto simp: parentOf_def split: option.splits)
  qed
qed

lemma returns_walk:
  "isFileDescendant st c a = Some b \<Longrightarrow> \<exists>k. nthAncestor st c (Suc k) = (if b then Some a else None)"
proof (induction st c a b rule: isFileDescendant.raw_induct[rotated 1, consumes 1, case_names step])
  case (step f st c a b)
  show ?case
  proof (cases "parentOf st c")
    case None
    with step(2) have "b = False" by (auto simp: parentOf_def split: option.splits)
    with None show ?thesis by (intro exI[of _ 0]) simp
  next
    case (Some p)
    show ?thesis
    proof (cases "p = a")
      case True
      with Some step(2) have "b" by (auto simp: parentOf_def split: option.splits)
      with Some True show ?thesis by (intro exI[of _ 0]) simp
    next
      case False
      with Some step(2) have "f st p a = Some b" by (auto simp: parentOf_def split: option.splits)
      from step(1)[OF this] obtain k where "nthAncestor st p (Suc k) = (if b then Some a else None)" by blast
      with Some show ?thesis by (intro exI[of _ "Suc k"]) simp
    qed
  qed
qed

lemma returns_True_iff:
  "isFileDescendant st c a = Some b \<Longrightarrow> b = (\<exists>k. nthAncestor st c (Suc k) = Some a)"
proof (induction st c a b rule: isFileDescendant.raw_induct[rotated 1, consumes 1, case_names step])
  case (step f st c a b)
  show ?case
  proof (cases "parentOf st c")
    case None
    with step(2) have "b = False" by (auto simp: parentOf_def split: option.splits)
    with None show ?thesis by simp
  next
    case (Some p)
    show ?thesis
    proof (cases "p = a")
      case True
      with Some step(2) have "b" by (auto simp: parentOf_def split: option.splits)
      moreover have "nthAncestor st c (Suc 0) = Some a" using Some True by simp
      ultimately show ?thesis by blast
    next
      case False
      with Some step(2) have "f st p a = Some b" by (auto simp: parentOf_def split: option.splits)
      from step(1)[OF this] have b: "b = (\<exists>k. nthAncestor st p (Suc k) = Some a)" .
      have "(\<exists>k. nthAncestor st c (Suc k) = Some a) = (\<exists>k. nthAncestor st p (Suc k) = Some a)"
      proof
        assume "\<exists>k. nthAncestor st c (Suc k) = Some a"
        then obtain k where k: "nthAncestor st c (Suc k) = Some a" by blast
        with Some False obtain k' where "k = Suc k'" by (cases k) auto
        with k Some show "\<exists>k. nthAncestor st p (Suc k) = Some a" by auto
      next
        assume "\<exists>k. nthAncestor st p (Suc k) = Some a"
        then obtain k where "nthAncestor st p (Suc k) = Some a" by blast
        with Some have "nthAncestor st c (Suc (Suc k)) = Some a" by simp
        then show "\<exists>k. nthAncestor st c (Suc k) = Some a" by blast
      qed
      with b show ?thesis by simp
    qed
  qed
qed

lemma finite_chain_decides:
  assumes "nthAncestor st c (Suc n) = None"
  shows "isFileDescendant st c a = Some (\<exists>k. nthAncestor st c (Suc k) = Some a)"
proof -
  from walk_returns[of st c n a] assms obtain b where b: "isFileDescendant st c a = Some b" by blast
  from returns_True_iff[OF b] b show ?thesis by simp
qed

lemma cyclic_chain:
  "nthAncestor cyclicStore ''1'' k = Some (if even k then ''1'' else ''2'')"
  "nthAncestor cyclicStore ''2'' k = Some (if even k then ''2'' else ''1'')"
  by (induction k) (auto simp: parentOf_def findById_def cyclicStore_def mkFolder_def)

text \<open>
  C4 (as the code has it). The walk applies no bound: \<open>isFileDescendant\<close> returns exactly
  when the parent chain of the candidate ends (a null parent or a missing node) or
  reaches \<open>ancestorId\<close>. On a cyclic chain that does not contain \<open>ancestorId\<close> neither
  happens, and the call does not return.
\<close>

theorem C4_walk_returns_iff_chain_ends_or_meets:
  "(\<exists>b. isFileDescendant st c a = Some b) =
   (\<exists>k. nthAncestor st c (Suc k) = None \<or> nthAncestor st c (Suc k) = Some a)"
proof
  assume "\<exists>b. isFileDescendant st c a = Some b"
  then obtain b where "isFileDescendant st c a = Some b" by blast
  from returns_walk[OF this] show "\<exists>k. nthAncestor st c (Suc k) = None \<or> nthAncestor st c (Suc k) = Some a"
    by (cases b) auto
next
  assume "\<exists>k. nthAncestor st c (Suc k) = None \<or> nthAncestor st c (Suc k) = Some a"
  then show "\<exists>b. isFileDescendant st c a = Some b" using walk_returns by blast
qed

text \<open>
  C4, the claim as stated, fails: on the store whose two folders are each other's
  parent, asking whether folder 1 descends from an identifier outside the cycle never
  returns.
\<close>

theorem C4_cyclic_chain_never_returns:
  "isFileDescendant cyclicStore ''1'' ''9'' = None"
proof (cases "isFileDescendant cyclicStore ''1'' ''9''")
  case None
  then show ?thesis .
next
  case (Some b)
  from returns_walk[OF this] obtain k where
    "nthAncestor cyclicStore ''1'' (Suc k) = (if b then Some ''9'' else None)" by blast
  then show ?thesis using cyclic_chain(1)[of "Suc k"] by (auto split: if_splits)
qed

lemma walk_result:
  "isFileDescendant st c a =
     (if \<exists>k. nthAncestor st c (Suc k) = Some a then Some True
      else if \<exists>k. nthAncestor st c (Suc k) = None then Some False
      else None)"
proof (cases "isFileDescendant st c a")
  case None
  have "\<not> (\<exists>k. nthAncestor st c (Suc k) = None \<or> nthAncestor st c (Suc k) = Some a)"
  proof
    assume "\<exists>k. nthAncestor st c (Suc k) = None \<or> nthAncestor st c (Suc k) = Some a"
    then obtain k where "nthAncestor st c (Suc k) = None \<or> nthAncestor st c (Suc k) = Some a" by blast
    from walk_returns[OF this] None show False by simp
  qed
  then have "\<not> (\<exists>k. nthAncestor st c (Suc k) = Some a)" "\<not> (\<exists>k. nthAncestor st c (Suc k) = None)"
    by blast+
  with None show ?thesis by (simp only: if_False)
next
  case (Some b)
  from returns_True_iff[OF Some] have b: "b = (\<exists>k. nthAncestor st c (Suc k) = Some a)" .
  show ?thesis
  proof (cases b)
    case True
    with b have "\<exists>k. nthAncestor st c (Suc k) = Some a" by simp
    with Some True show ?thesis by (simp only: if_True)
  next
    case False
    with b have n: "\<not> (\<exists>k. nthAncestor st c (Suc k) = Some a)" by simp
    from returns_walk[OF Some] False have e: "\<exists>k. nthAncestor st c (Suc k) = None" by simp
    from Some False n e show ?thesis by (simp only: if_True if_False)
  qed
qed

lemma find_target:
  "(List.find (\<lambda>f. fid f = p \<and> projectId f = projId \<and> ftype f = Folder) st = None)
     = (\<not> (\<exists>f \<in> set st. fid f = p \<and> projectId f = projId \<and> ftype f = Folder))"
  by (auto simp: find_None_iff)

text \<open>
  C3 (as the code has it). A null (or empty) \<open>newParentId\<close> succeeds with no check at
  all, also when \<open>nodeId\<close> does not exist. Otherwise, for a target other than the node
  itself, the checks run in this order. The node must exist (else \<open>File not found\<close>).
  Only if the node is a folder, the ancestor chain of the target is walked, without
  bound: the call fails with \<open>Cannot move folder into its own descendant\<close> when the
  chain reaches the node, and it does not return when the chain neither reaches the node
  nor ends. Last, the target must be an existing folder of the project (else \<open>New
  parent folder not found\<close>, the same failure for an absent target, a file and a folder
  of another project). The call succeeds exactly when the node exists, the walk, if
  any, ends without reaching the node, and the target is such a folder.
\<close>

theorem C3_validate_move_checks:
  "(\<not> truthyId newParentId \<longrightarrow> validateHierarchyOperation st nodeId newParentId projId = Some (Inr True)) \<and>
   (p \<noteq> [] \<and> p \<noteq> nodeId \<longrightarrow>
      validateHierarchyOperation st nodeId (Some p) projId =
        (case findById st nodeId of
           None \<Rightarrow> Some (Inl FileNotFound)
         | Some moved \<Rightarrow>
             if ftype moved = Folder \<and> (\<exists>k. nthAncestor st p (Suc k) = Some nodeId)
             then Some (Inl CannotMoveIntoDescendant)
             else if ftype moved = Folder \<and> (\<forall>k. nthAncestor st p (Suc k) \<noteq> None)
             then None
             else if (\<exists>f \<in> set st. fid f = p \<and> projectId f = projId \<and> ftype f = Folder)
             then Some (Inr True)
             else Some (Inl NewParentNotFound)))"
proof (intro conjI impI)
  assume "\<not> truthyId newParentId"
  then show "validateHierarchyOperation st nodeId newParentId projId = Some (Inr True)"
    by (simp add: validateHierarchyOperation_def)
next
  assume a: "p \<noteq> [] \<and> p \<noteq> nodeId"
  let ?meets = "\<exists>k. nthAncestor st p (Suc k) = Some nodeId"
  let ?endless = "\<forall>k. nthAncestor st p (Suc k) \<noteq> None"
  let ?target = "\<exists>f \<in> set st. fid f = p \<and> projectId f = projId \<and> ftype f = Folder"
  let ?lookup = "List.find (\<lambda>f. fid f = p \<and> projectId f = projId \<and> ftype f = Folder) st"
  have d: "isFileDescendant st p nodeId =
             (if ?meets then Some True else if ?endless then None else Some False)"
    by (subst walk_result) (auto simp del: nthAncestor.simps not_None_eq)
  have t: "(case ?lookup of None \<Rightarrow> Some (Inl NewParentNotFound) | Some newParent \<Rightarrow> Some (Inr True))
             = (if ?target then Some (Inr True) else Some (Inl NewParentNotFound))"
    using find_target[of p projId st] by (cases ?lookup) (simp_all del: nthAncestor.simps)
  show "validateHierarchyOperation st nodeId (Some p) projId =
        (case findById st nodeId of
           None \<Rightarrow> Some (Inl FileNotFound)
         | Some moved \<Rightarrow>
             if ftype moved = Folder \<and> ?meets
             then Some (Inl CannotMoveIntoDescendant)
             else if ftype moved = Folder \<and> ?endless
             then None
             else if ?target
             then Some (Inr True)
             else Some (Inl NewParentNotFound))"
  proof (cases "findById st nodeId")
    case None
    then show ?thesis using a by (simp add: validateHierarchyOperation_def)
  next
    case (Some moved)
    show ?thesis
    proof (cases "ftype moved")
      case File
      with a Some t show ?thesis
        by (simp add: validateHierarchyOperation_def del: nthAncestor.simps not_None_eq)
    next
      case Folder
      show ?thesis
      proof (cases ?meets)
        case True
        with d have w: "isFileDescendant st p nodeId = Some True"
          by (simp del: nthAncestor.simps not_None_eq)
        from a Some Folder True w show ?thesis
          by (simp add: validateHierarchyOperation_def del: nthAncestor.simps not_None_eq)
      next
        case nm: False
        show ?thesis
        proof (cases ?endless)
          case True
          with d nm have w: "isFileDescendant st p nodeId = None"
            by (simp del: nthAncestor.simps not_None_eq)
          from a Some Folder nm True w show ?thesis
            by (simp add: validateHierarchyOperation_def del: nthAncestor.simps not_None_eq)
        next
          case False
          with d nm have w: "isFileDescendant st p nodeId = Some False"
            by (simp del: nthAncestor.simps not_None_eq)
          from a Some Folder nm False w t show ?thesis
            by (simp add: validateHierarchyOperation_def del: nthAncestor.simps not_None_eq)
        qed
      qed
    qed
  qed
qed

lemma sample_chain_4: "(\<exists>k. nthAncestor sampleStore ''4'' (Suc k) = Some ''1'')"
  by (rule exI[of _ 0]) (simp add: parentOf_def findById_def sampleStore_def mkFolder_def mkFile_def)

lemma sample_chain_6: "nthAncestor sampleStore ''6'' (Suc k) = None"
  by (simp add: parentOf_def findById_def sampleStore_def mkFolder_def mkFile_def)

lemma cyclic_beside:
  "nthAncestor (cyclicStore @ extra) ''1'' k = Some (if even k then ''1'' else ''2'')"
  "nthAncestor (cyclicStore @ extra) ''2'' k = Some (if even k then ''2'' else ''1'')"
  by (induction k) (auto simp: parentOf_def findById_def cyclicStore_def mkFolder_def)

theorem C3_validate_move_checks_witness:
  "validateHierarchyOperation sampleStore ''1'' None ''P'' = Some (Inr True) \<and>
   validateHierarchyOperation sampleStore ''1'' (Some ''6'') ''P'' = Some (Inr True) \<and>
   validateHierarchyOperation sampleStore ''1'' (Some ''4'') ''P'' = Some (Inl CannotMoveIntoDescendant) \<and>
   validateHierarchyOperation (cyclicStore @ [mkFolder ''3'' ''P'' ''c'' None]) ''3'' (Some ''1'') ''P'' = None \<and>
   validateHierarchyOperation (cyclicStore @ [mkFile ''3'' ''P'' ''c'' None 7]) ''3'' (Some ''1'') ''P'' = Some (Inr True)"
proof -
  have moved: "findById sampleStore ''1'' = Some (mkFolder ''1'' ''P'' ''src'' None)"
    by (simp add: findById_def sampleStore_def mkFolder_def mkFile_def)
  have tgt: "\<exists>f \<in> set sampleStore. fid f = ''6'' \<and> projectId f = ''P'' \<and> ftype f = Folder"
    by (simp add: sampleStore_def mkFolder_def mkFile_def)
  have fo: "ftype (mkFolder ''1'' ''P'' ''src'' None) = Folder" by (simp add: mkFolder_def)
  have e6: "\<not> (\<forall>k. nthAncestor sampleStore ''6'' (Suc k) \<noteq> None)"
    using sample_chain_6 by blast
  have m6: "\<not> (\<exists>k. nthAncestor sampleStore ''6'' (Suc k) = Some ''1'')"
    using sample_chain_6 by simp
  have s: "validateHierarchyOperation sampleStore ''1'' None ''P'' = Some (Inr True) \<and>
           validateHierarchyOperation sampleStore ''1'' (Some ''6'') ''P'' = Some (Inr True) \<and>
           validateHierarchyOperation sampleStore ''1'' (Some ''4'') ''P'' = Some (Inl CannotMoveIntoDescendant)"
    using C3_validate_move_checks [of None sampleStore "''1''" "''P''" "''6''"]
          C3_validate_move_checks [of None sampleStore "''1''" "''P''" "''4''"]
          sample_chain_4 e6 m6 moved tgt fo
    by (simp del: nthAncestor.simps)
  let ?sf = "cyclicStore @ [mkFolder ''3'' ''P'' ''c'' None]"
  let ?sd = "cyclicStore @ [mkFile ''3'' ''P'' ''c'' None 7]"
  have f3: "findById ?sf ''3'' = Some (mkFolder ''3'' ''P'' ''c'' None)"
           "findById ?sd ''3'' = Some (mkFile ''3'' ''P'' ''c'' None 7)"
    by (simp_all add: findById_def cyclicStore_def mkFolder_def mkFile_def)
  have ty: "ftype (mkFolder ''3'' ''P'' ''c'' None) = Folder" "ftype (mkFile ''3'' ''P'' ''c'' None 7) = File"
    by (simp_all add: mkFolder_def mkFile_def)
  have nm: "\<not> (\<exists>k. nthAncestor ?sf ''1'' (Suc k) = Some ''3'')"
    by (simp add: cyclic_beside del: nthAncestor.simps)
  have en: "\<forall>k. nthAncestor ?sf ''1'' (Suc k) \<noteq> None"
    by (simp add: cyclic_beside del: nthAncestor.simps)
  have t1: "\<exists>f \<in> set ?sd. fid f = ''1'' \<and> projectId f = ''P'' \<and> ftype f = Folder"
    by (simp add: cyclicStore_def mkFolder_def mkFile_def)
  have c1: "validateHierarchyOperation ?sf ''3'' (Some ''1'') ''P'' = None"
    using C3_validate_move_checks [of None ?sf "''3''" "''P''" "''1''"] f3 ty nm en
    by (simp del: nthAncestor.simps)
  have c2: "validateHierarchyOperation ?sd ''3'' (Some ''1'') ''P'' = Some (Inr True)"
    using C3_validate_move_checks [of None ?sd "''3''" "''P''" "''1''"] f3 ty t1
    by (simp del: nthAncestor.simps)
  from s c1 c2 show ?thesis by (simp only: simp_thms)
qed

text \<open>
  C3, the claim as stated, fails on three counts: with a null target a missing node is
  accepted; a file inside the moved folder is rejected by the cycle guard, which runs
  before the target check; a target that is a file is reported with the failure of an
  absent target.
\<close>

theorem C3_checks_differ_from_claim:
  "validateHierarchyOperation [] ''ghost'' None ''P'' = Some (Inr True) \<and>
   validateHierarchyOperation sampleStore ''1'' (Some ''5'') ''P'' = Some (Inl CannotMoveIntoDescendant) \<and>
   validateHierarchyOperation sampleStore ''6'' (Some ''5'') ''P'' = Some (Inl NewParentNotFound) \<and>
   validateHierarchyOperation sampleStore ''6'' (Some ''9'') ''P'' = Some (Inl NewParentNotFound)"
  by (simp add: validateHierarchyOperation_def isFileDescendant.simps findById_def sampleStore_def
        mkFolder_def mkFile_def)

section \<open>Properties of buildFileTree\<close>

lemma list_all2_right:
  "list_all2 R xs ys \<Longrightarrow> (\<And>x y. R x y \<Longrightarrow> Q y) \<Longrightarrow> list_all Q ys"
  by (induction rule: list_all2_induct) auto

lemma those_map_Some:
  "those (map f xs) = Some ys \<Longrightarrow> list_all2 (\<lambda>x y. f x = Some y) xs ys"
  by (induction xs arbitrary: ys) (auto split: option.splits)

lemma set_insortWith: "set (insortWith cmp x ys) = insert x (set ys)"
  by (induction ys) auto

lemma sorted_insortWith:
  assumes total: "\<forall>a b. cmp a b \<le> 0 \<or> cmp b a \<le> 0"
      and trans: "\<forall>a b c. cmp a b \<le> 0 \<and> cmp b c \<le> 0 \<longrightarrow> cmp a c \<le> 0"
  shows "sorted_wrt (\<lambda>a b. cmp a b \<le> 0) ys \<Longrightarrow> sorted_wrt (\<lambda>a b. cmp a b \<le> 0) (insortWith cmp x ys)"
proof (induction ys)
  case Nil
  then show ?case by simp
next
  case (Cons y ys)
  show ?case
  proof (cases "cmp x y \<le> 0")
    case True
    have "\<forall>z \<in> set ys. cmp x z \<le> 0"
    proof
      fix z assume "z \<in> set ys"
      with Cons.prems have "cmp y z \<le> 0" by simp
      with True trans show "cmp x z \<le> 0" by blast
    qed
    with True Cons.prems show ?thesis by simp
  next
    case False
    with total have "cmp y x \<le> 0" by blast
    with False Cons show ?thesis by (simp add: set_insortWith)
  qed
qed

lemma sorted_sortWith:
  assumes total: "\<forall>a b. cmp a b \<le> 0 \<or> cmp b a \<le> 0"
      and trans: "\<forall>a b c. cmp a b \<le> 0 \<and> cmp b c \<le> 0 \<longrightarrow> cmp a c \<le> 0"
  shows "sorted_wrt (\<lambda>a b. cmp a b \<le> 0) (sortWith cmp xs)"
  unfolding sortWith_def
  by (induction xs) (simp_all add: sorted_insortWith[OF total trans])

lemma mset_insortWith: "mset (insortWith cmp x ys) = add_mset x (mset ys)"
  by (induction ys) auto

lemma mset_sortWith: "mset (sortWith cmp xs) = mset xs"
  unfolding sortWith_def by (induction xs) (auto simp: mset_insortWith)

lemma mset_map_sortWith: "mset (map h (sortWith cmp xs)) = mset (map h xs)"
  by (simp add: mset_sortWith)

lemma set_sortWith: "set (sortWith cmp xs) = set xs"
  using mset_sortWith[of cmp xs] by (metis set_mset_mset)

lemma compareNodes_le: "(compareNodes lc a b \<le> 0) = siblingLe lc a b"
  by (cases "ftype a"; cases "ftype b") (simp_all add: compareNodes_def siblingLe_def)

lemma siblingLe_total:
  assumes "validCompare lc"
  shows "siblingLe lc a b \<or> siblingLe lc b a"
proof -
  from assms have t: "lc (name a) (name b) \<le> 0 \<or> lc (name b) (name a) \<le> 0"
    unfolding validCompare_def by blast
  show ?thesis using t
    by (cases "ftype a"; cases "ftype b") (auto simp add: siblingLe_def)
qed

lemma siblingLe_trans:
  assumes "validCompare lc" "siblingLe lc a b" "siblingLe lc b c"
  shows "siblingLe lc a c"
proof -
  from assms(1) have t: "lc (name a) (name b) \<le> 0 \<and> lc (name b) (name c) \<le> 0 \<longrightarrow> lc (name a) (name c) \<le> 0"
    unfolding validCompare_def by blast
  show ?thesis using assms(2,3) t
    by (cases "ftype a"; cases "ftype b"; cases "ftype c") (simp_all add: siblingLe_def)
qed

lemma sorted_entries:
  fixes es :: "treeEntry list"
  assumes v: "validCompare lc"
  shows "sorted_wrt (\<lambda>a b. siblingLe lc (node a) (node b))
           (sortWith (\<lambda>a b. compareNodes lc (node a) (node b)) es)"
proof -
  let ?cmp = "\<lambda>a b :: treeEntry. compareNodes lc (node a) (node b)"
  have t: "\<forall>a b. ?cmp a b \<le> 0 \<or> ?cmp b a \<le> 0"
    using siblingLe_total[OF v] by (simp add: compareNodes_le)
  have tr: "\<forall>a b c. ?cmp a b \<le> 0 \<and> ?cmp b c \<le> 0 \<longrightarrow> ?cmp a c \<le> 0"
    using siblingLe_trans[OF v] unfolding compareNodes_le by blast
  have "sorted_wrt (\<lambda>a b. ?cmp a b \<le> 0) (sortWith ?cmp es)"
    using t tr by (rule sorted_sortWith)
  then show ?thesis by (simp add: compareNodes_le)
qed


lemma keyed_firstPass_gen:
  "keyed fm \<Longrightarrow> keyed (fst (foldl (\<lambda>(fm, rootFiles) f.
              (fm(fid f \<mapsto> \<lparr> node = f, kids = [] \<rparr>),
               if parentId f = None then rootFiles @ [fid f] else rootFiles)) (fm, rs) files))"
proof (induction files arbitrary: fm rs)
  case Nil
  then show ?case by simp
next
  case (Cons f files)
  have "keyed (fm(fid f \<mapsto> \<lparr> node = f, kids = [] \<rparr>))"
    using Cons.prems by (simp add: keyed_def)
  from Cons.IH[OF this] show ?case by simp
qed

lemma keyed_firstPass: "keyed (fst (firstPass files))"
  unfolding firstPass_def by (rule keyed_firstPass_gen) (simp add: keyed_def)

lemma keyed_step:
  "keyed fm \<Longrightarrow> keyed (case parentId f of None \<Rightarrow> fm
              | Some p \<Rightarrow> (case fm p of None \<Rightarrow> fm
                   | Some parent \<Rightarrow> fm(p \<mapsto> parent\<lparr> kids := kids parent @ [fid f] \<rparr>)))"
  by (auto simp: keyed_def split: option.splits)

lemma keyed_secondPass: "keyed fm \<Longrightarrow> keyed (secondPass files fm)"
  unfolding secondPass_def
proof (induction files arbitrary: fm)
  case Nil
  then show ?case by simp
next
  case (Cons f files)
  from Cons.IH[OF keyed_step[OF Cons.prems]] show ?case by simp
qed

lemma deref_keyed:
  assumes "keyed fm" "deref fm ids = Some es" "c \<in> set es"
  shows "fm (fid (node c)) = Some c"
proof -
  from assms(2) have "list_all2 (\<lambda>i e. fm i = Some e) ids es"
    unfolding deref_def by (rule those_map_Some)
  with assms(3) obtain j where "fm j = Some c"
    by (auto simp: list_all2_conv_all_nth in_set_conv_nth)
  with assms(1) show ?thesis by (auto simp: keyed_def)
qed

lemma sorted_wrt_list_all2:
  assumes "list_all2 (\<lambda>c y. tfile y = node c) cs ts"
      and "sorted_wrt (\<lambda>a b. siblingLe lc (node a) (node b)) cs"
  shows "sorted_wrt (\<lambda>a b. siblingLe lc (tfile a) (tfile b)) ts"
proof -
  from assms(1) have "map tfile ts = map node cs"
    by (induction rule: list_all2_induct) simp_all
  moreover from assms(2) have "sorted_wrt (siblingLe lc) (map node cs)"
    by (simp add: sorted_wrt_map)
  ultimately have "sorted_wrt (siblingLe lc) (map tfile ts)" by simp
  then show ?thesis by (simp add: sorted_wrt_map)
qed

lemma sortChildren_result:
  assumes v: "validCompare lc" and k: "keyed fm"
  shows "sortChildren d lc fm i = Some t \<Longrightarrow> fm i = Some e \<Longrightarrow> tfile t = node e \<and> levelsSorted lc t"
proof (induction d arbitrary: i t e)
  case 0
  then show ?case by simp
next
  case (Suc d)
  let ?sorted = "\<lambda>es. sortWith (\<lambda>a b. compareNodes lc (node a) (node b)) es"
  from Suc.prems obtain es where es: "deref fm (kids e) = Some es"
    by (cases "deref fm (kids e)") simp_all
  with Suc.prems obtain ts where
    ts: "those (map (\<lambda>c. sortChildren d lc fm (fid (node c))) (?sorted es)) = Some ts" and
    t: "t = TreeNode (node e) ts"
    by (cases "those (map (\<lambda>c. sortChildren d lc fm (fid (node c))) (?sorted es))") auto
  from ts have l2: "list_all2 (\<lambda>c y. sortChildren d lc fm (fid (node c)) = Some y) (?sorted es) ts"
    by (rule those_map_Some)
  have each: "list_all2 (\<lambda>c y. tfile y = node c \<and> levelsSorted lc y) (?sorted es) ts"
    unfolding list_all2_conv_all_nth
  proof (intro conjI allI impI)
    show "length (?sorted es) = length ts" using l2 by (rule list_all2_lengthD)
  next
    fix j assume j: "j < length (?sorted es)"
    then have "?sorted es ! j \<in> set es" using set_sortWith[of _ es] nth_mem by blast
    from deref_keyed[OF k es this] have m: "fm (fid (node (?sorted es ! j))) = Some (?sorted es ! j)" .
    from l2 j have "sortChildren d lc fm (fid (node (?sorted es ! j))) = Some (ts ! j)"
      by (simp add: list_all2_conv_all_nth)
    from Suc.IH[OF this m] show "tfile (ts ! j) = node (?sorted es ! j)" "levelsSorted lc (ts ! j)"
      by simp_all
  qed
  from each have a: "list_all2 (\<lambda>c y. tfile y = node c) (?sorted es) ts"
    by (rule list_all2_mono) simp
  from each have b: "list_all (levelsSorted lc) ts"
    by (rule list_all2_right) simp
  from sorted_wrt_list_all2[OF a sorted_entries[OF v]] b t
  show ?case by simp
qed

lemma valid_caseless: "validCompare caselessCompare"
  unfolding validCompare_def caselessCompare_def Let_def
  by (auto dest: less_trans)

lemma build_shuffled: "buildFileTree 3 caselessCompare (Some shuffledFiles) =
   Some [TreeNode (mkFolder ''6'' ''P'' ''docs'' None) [],
         TreeNode (mkFolder ''1'' ''P'' ''src'' None)
           [TreeNode (mkFolder ''4'' ''P'' ''lib'' (Some ''1''))
              [TreeNode (mkFile ''5'' ''P'' ''util.js'' (Some ''4'') 50) []],
            TreeNode (mkFile ''2'' ''P'' ''App.js'' (Some ''1'') 100) [],
            TreeNode (mkFile ''3'' ''P'' ''index.js'' (Some ''1'') 250) []],
         TreeNode (mkFile ''7'' ''P'' ''README.md'' None 10) []]"
  by code_simp

lemma build_orphan: "buildFileTree 3 caselessCompare (Some orphanFiles) = Some [TreeNode (mkFolder ''1'' ''P'' ''src'' None) []]"
  by code_simp

text \<open>
  C6. Whenever \<open>localeCompare\<close> orders names (any two comparable, transitively), every
  forest returned by \<open>buildFileTree\<close> is ordered at every level, the root list
  included: a folder stands before every file among its siblings, and siblings of one
  type stand in ascending order of their names under \<open>localeCompare\<close>.
\<close>

theorem C6_siblings_ordered_at_every_level:
  assumes v: "validCompare lc" and b: "buildFileTree depth lc files = Some forest"
  shows "forestSorted lc forest"
proof (cases files)
  case None
  with b show ?thesis by (simp add: buildFileTree_def forestSorted_def)
next
  case (Some fs)
  show ?thesis
  proof (cases "fs = []")
    case True
    with b Some show ?thesis by (simp add: buildFileTree_def forestSorted_def)
  next
    case False
    let ?sorted = "\<lambda>es. sortWith (\<lambda>a b. compareNodes lc (node a) (node b)) es"
    obtain fm1 rootFiles where fp: "firstPass fs = (fm1, rootFiles)" by (cases "firstPass fs")
    define fm where "fm = secondPass fs fm1"
    have k: "keyed fm"
      unfolding fm_def using keyed_secondPass[OF keyed_firstPass[of fs]] fp by simp
    from b Some False fp obtain es where es: "deref fm rootFiles = Some es"
      by (cases "deref fm rootFiles") (simp_all add: buildFileTree_def fm_def)
    with b Some False fp have
      ts: "those (map (\<lambda>r. sortChildren depth lc fm (fid (node r))) (?sorted es)) = Some forest"
      by (simp add: buildFileTree_def fm_def)
    then have l2: "list_all2 (\<lambda>c y. sortChildren depth lc fm (fid (node c)) = Some y) (?sorted es) forest"
      by (rule those_map_Some)
    have each: "list_all2 (\<lambda>c y. tfile y = node c \<and> levelsSorted lc y) (?sorted es) forest"
      unfolding list_all2_conv_all_nth
    proof (intro conjI allI impI)
      show "length (?sorted es) = length forest" using l2 by (rule list_all2_lengthD)
    next
      fix j assume j: "j < length (?sorted es)"
      then have "?sorted es ! j \<in> set es" using set_sortWith[of _ es] nth_mem by blast
      from deref_keyed[OF k es this] have m: "fm (fid (node (?sorted es ! j))) = Some (?sorted es ! j)" .
      from l2 j have "sortChildren depth lc fm (fid (node (?sorted es ! j))) = Some (forest ! j)"
        by (simp add: list_all2_conv_all_nth)
      from sortChildren_result[OF v k this m]
      show "tfile (forest ! j) = node (?sorted es ! j)" "levelsSorted lc (forest ! j)"
        by simp_all
    qed
    from each have a: "list_all2 (\<lambda>c y. tfile y = node c) (?sorted es) forest"
      by (rule list_all2_mono) simp
    from each have c: "list_all (levelsSorted lc) forest"
      by (rule list_all2_right) simp
    from sorted_wrt_list_all2[OF a sorted_entries[OF v]] c
    show ?thesis by (simp add: forestSorted_def)
  qed
qed

theorem C6_siblings_ordered_witness:
  "\<exists>forest. buildFileTree 3 caselessCompare (Some shuffledFiles) = Some forest \<and>
            forestSorted caselessCompare forest \<and>
            map (name \<circ> tfile) forest = [''docs'', ''src'', ''README.md''] \<and>
            map (name \<circ> tfile) (children (forest ! 1)) = [''lib'', ''App.js'', ''index.js'']"
  using C6_siblings_ordered_at_every_level [OF valid_caseless build_shuffled] build_shuffled
  by (simp add: mkFolder_def mkFile_def)

text \<open>
  C10. For a null or undefined argument and for the empty array, \<open>buildFileTree\<close>
  returns the empty forest, whatever the comparator and the recursion depth available.
\<close>

theorem C10_empty_or_absent_input:
  "buildFileTree depth lc None = Some [] \<and> buildFileTree depth lc (Some []) = Some []"
  by (simp add: buildFileTree_def)

section \<open>Properties of project deletion\<close>

lemma delete_sample_blob_store_up:
  "deleteProject (\<lambda>_. True) (S3Answers []) ''P'' sampleWorld =
     (Deleted 6 3,
      \<lparr> projects = [''Q''],
        metadata = [mkFile ''8'' ''Q'' ''notes.txt'' None 7],
        blobs = [''projects/Q/files/8/notes.txt''] \<rparr>)"
  by (simp add: deleteProject_def Let_def deleteFiles_def sampleWorld_def sampleStore_def mkFile_def mkFolder_def hasS3Key_def)

text \<open>
  C9 (as the code has it). After a deletion answered with success, no FileMetadata
  document of the project is left in the record store, the project document is gone,
  and the answer counts the documents removed. The blobs of those files are gone from
  the blob store when the blob store answered the delete request without errors; a
  failure of the blob store is logged and does not stop the deletion.
\<close>

theorem C9_delete_project_cascade:
  assumes "deleteProject dbUp reply pid w = (Deleted n m, w')"
  shows "(\<forall>f \<in> set (metadata w'). projectId f \<noteq> pid) \<and> pid \<notin> set (projects w') \<and>
         n = length (filter (\<lambda>f. projectId f = pid) (metadata w)) \<and>
         (reply = S3Answers [] \<longrightarrow> (\<forall>k \<in> set (projectBlobKeys pid (metadata w)). k \<notin> set (blobs w')))"
  using assms
  by (auto simp: deleteProject_def Let_def deleteFiles_def projectBlobKeys_def filter_empty_conv split: if_splits)

theorem C9_delete_project_cascade_witness:
  "(\<exists>w'. deleteProject (\<lambda>_. True) (S3Answers []) ''P'' sampleWorld = (Deleted 6 3, w') \<and>
      list_all (\<lambda>f. projectId f \<noteq> ''P'') (metadata w') \<and> ''P'' \<notin> set (projects w') \<and>
      list_all (\<lambda>k. k \<notin> set (blobs w')) (projectBlobKeys ''P'' (metadata sampleWorld)))"
  using C9_delete_project_cascade [OF delete_sample_blob_store_up] delete_sample_blob_store_up
  by (simp add: list_all_iff)

text \<open>
  C9, the claim as stated, fails: when the blob store throws, the deletion is still
  answered with success, and the three blobs of the project's files are all left in
  the blob store.
\<close>

theorem C9_blobs_survive_blob_store_failure:
  "deleteProject (\<lambda>_. True) (S3Throws (newError ''socket hang up'')) ''P'' sampleWorld =
     (Deleted 6 3,
      \<lparr> projects = [''Q''],
        metadata = [mkFile ''8'' ''Q'' ''notes.txt'' None 7],
        blobs = [''projects/P/files/2/App.js'', ''projects/P/files/3/index.js'',
                 ''projects/P/files/5/util.js'', ''projects/Q/files/8/notes.txt''] \<rparr>)"
  by (simp add: deleteProject_def Let_def deleteFiles_def sampleWorld_def sampleStore_def mkFile_def mkFolder_def hasS3Key_def)

section \<open>Properties of generateUniqueName\<close>

lemma loop_result:
  "uniqueNameLoop st p b par ex nm c = (r, c') \<Longrightarrow>
     (if checkNamingConflict st p nm par ex
      then (\<exists>n\<ge>c. r = candidate b n \<and> c' = Suc n \<and> \<not> checkNamingConflict st p (candidate b n) par ex \<and>
                  (\<forall>m. c \<le> m \<and> m < n \<longrightarrow> checkNamingConflict st p (candidate b m) par ex))
      else r = nm \<and> c' = c)"
proof (induction st p b par ex nm c rule: uniqueNameLoop.induct)
  case (1 st p b par ex nm c)
  show ?case
  proof (cases "checkNamingConflict st p nm par ex")
    case False
    with "1.prems" show ?thesis by (simp add: uniqueNameLoop.simps)
  next
    case True
    with "1.prems" have rec: "uniqueNameLoop st p b par ex (candidate b c) (c + 1) = (r, c')"
      by (simp add: uniqueNameLoop.simps)
    note ih = "1.IH"[OF True rec]
    show ?thesis
    proof (cases "checkNamingConflict st p (candidate b c) par ex")
      case False
      with ih have "r = candidate b c" "c' = Suc c" by simp_all
      with False True show ?thesis by (simp only: if_True) (rule exI[of _ c], auto)
    next
      case T2: True
      with ih obtain n where n: "c + 1 \<le> n" "r = candidate b n" "c' = Suc n"
        "\<not> checkNamingConflict st p (candidate b n) par ex"
        "\<forall>m. c + 1 \<le> m \<and> m < n \<longrightarrow> checkNamingConflict st p (candidate b m) par ex"
        by auto
      have "\<forall>m. c \<le> m \<and> m < n \<longrightarrow> checkNamingConflict st p (candidate b m) par ex"
      proof (intro allI impI)
        fix m assume "c \<le> m \<and> m < n"
        then show "checkNamingConflict st p (candidate b m) par ex"
          using T2 n(5) by (cases "m = c") auto
      qed
      with n True show ?thesis by (simp only: if_True) (rule exI[of _ n], simp)
    qed
  qed
qed


lemma conflict_sibling:
  assumes "checkNamingConflict st p nm par ex"
  shows "\<exists>f \<in> set st. matchesQuery p nm par ex f"
  using assms unfolding checkNamingConflict_def find_None_iff by blast

lemma matchesQuery_name: "matchesQuery p nm par ex f \<Longrightarrow> name f = nm"
  by (simp add: matchesQuery_def)

lemma failed_names_bound:
  assumes fail: "\<forall>nm \<in> set failed. checkNamingConflict st p nm par ex"
      and dist: "distinct failed" and sub: "set failed \<subseteq> set names"
  shows "length failed \<le> length (conflictingSiblings st p par ex names)"
proof -
  let ?S = "conflictingSiblings st p par ex names"
  have "set failed \<subseteq> name ` set ?S"
  proof
    fix nm assume nm: "nm \<in> set failed"
    with fail obtain f where f: "f \<in> set st" "matchesQuery p nm par ex f"
      using conflict_sibling by blast
    with nm sub have "f \<in> set ?S" by (auto simp: conflictingSiblings_def)
    moreover have "name f = nm" using f(2) by (rule matchesQuery_name)
    ultimately show "nm \<in> name ` set ?S" by force
  qed
  then have "card (set failed) \<le> card (name ` set ?S)" by (simp add: card_mono)
  also have "\<dots> \<le> card (set ?S)" by (simp add: card_image_le)
  also have "\<dots> \<le> length ?S" by (rule card_length)
  finally show ?thesis using dist by (simp add: distinct_card)
qed

lemma distinct_triedNames: "distinct (triedNames b k)"
proof -
  have "inj_on (candidate b) (set [1..<k])" by (auto simp: inj_on_def dest: candidate_inj)
  then have "distinct (map (candidate b) [1..<k])" by (simp add: distinct_map)
  moreover have "b \<notin> set (map (candidate b) [1..<k])" using candidate_neq_base[of b] by (auto dest: sym)
  ultimately show ?thesis by (simp add: triedNames_def)
qed

lemma names_eval:
  "checkNamingConflict namesStore ''P'' ''App.js'' None None"
  "generateUniqueName namesStore ''P'' ''App.js'' None None = ''App (2).js''"
  "conflictChecks namesStore ''P'' ''App.js'' None None = 3"
  "length (conflictingSiblings namesStore ''P'' None None (triedNames ''App.js'' 3)) = 2"
  "\<not> checkNamingConflict namesStore ''P'' ''README.md'' None None"
  "generateUniqueName namesStore ''P'' ''README.md'' None None = ''README.md''"
  by code_simp+

text \<open>
  C7. \<open>generateUniqueName\<close> returns \<open>baseName\<close> after one check when it has no
  conflict. Otherwise it returns \<open>stem (n)extension\<close> for the smallest \<open>n \<ge> 1\<close> whose
  name is free, after \<open>n + 1\<close> checks. \<open>stem\<close> and \<open>extension\<close> split \<open>baseName\<close> at its
  last dot (the extension starts with that dot and holds no other; it is empty when
  \<open>baseName\<close> has no dot). The number of checks is at most \<open>N + 1\<close>, where \<open>N\<close> counts
  the siblings bearing one of the names checked.
\<close>

theorem C7_generateUniqueName:
  "(\<not> checkNamingConflict st p b par ex \<longrightarrow>
       generateUniqueName st p b par ex = b \<and> conflictChecks st p b par ex = 1) \<and>
   (checkNamingConflict st p b par ex \<longrightarrow>
       (\<exists>n\<ge>1. generateUniqueName st p b par ex =
                  nameWithoutExt b @ '' ('' @ stringOfNat n @ '')'' @ extension b \<and>
               \<not> checkNamingConflict st p (generateUniqueName st p b par ex) par ex \<and>
               (\<forall>m. 1 \<le> m \<and> m < n \<longrightarrow> checkNamingConflict st p (candidate b m) par ex) \<and>
               conflictChecks st p b par ex = n + 1)) \<and>
   nameWithoutExt b @ extension b = b \<and>
   (if CHR ''.'' \<in> set b
    then (\<exists>rest. extension b = CHR ''.'' # rest \<and> CHR ''.'' \<notin> set rest)
    else extension b = []) \<and>
   conflictChecks st p b par ex
     \<le> length (conflictingSiblings st p par ex (triedNames b (conflictChecks st p b par ex))) + 1"
proof -
  obtain r c' where loop: "uniqueNameLoop st p b par ex b 1 = (r, c')"
    by (cases "uniqueNameLoop st p b par ex b 1")
  then have g: "generateUniqueName st p b par ex = r" and k: "conflictChecks st p b par ex = c'"
    by (simp_all add: generateUniqueName_def conflictChecks_def)
  note res = loop_result[OF loop]
  have A: "\<not> checkNamingConflict st p b par ex \<longrightarrow> r = b \<and> c' = 1"
    using res by simp
  have B: "checkNamingConflict st p b par ex \<longrightarrow>
       (\<exists>n\<ge>1. r = nameWithoutExt b @ '' ('' @ stringOfNat n @ '')'' @ extension b \<and>
               \<not> checkNamingConflict st p r par ex \<and>
               (\<forall>m. 1 \<le> m \<and> m < n \<longrightarrow> checkNamingConflict st p (candidate b m) par ex) \<and>
               c' = n + 1)"
  proof
    assume c: "checkNamingConflict st p b par ex"
    with res obtain n where n: "1 \<le> n" "r = candidate b n" "c' = Suc n"
      "\<not> checkNamingConflict st p (candidate b n) par ex"
      "\<forall>m. 1 \<le> m \<and> m < n \<longrightarrow> checkNamingConflict st p (candidate b m) par ex"
      by auto
    show "\<exists>n\<ge>1. r = nameWithoutExt b @ '' ('' @ stringOfNat n @ '')'' @ extension b \<and>
               \<not> checkNamingConflict st p r par ex \<and>
               (\<forall>m. 1 \<le> m \<and> m < n \<longrightarrow> checkNamingConflict st p (candidate b m) par ex) \<and>
               c' = n + 1"
      using n by (intro exI[of _ n]) (simp add: candidate_def)
  qed
  have C: "if CHR ''.'' \<in> set b
    then (\<exists>rest. extension b = CHR ''.'' # rest \<and> CHR ''.'' \<notin> set rest)
    else extension b = []"
    using split_at_last[of "CHR ''.''" b] by (simp add: extension_def)
  have D: "c' \<le> length (conflictingSiblings st p par ex (triedNames b c')) + 1"
  proof (cases "checkNamingConflict st p b par ex")
    case False
    with A show ?thesis by simp
  next
    case True
    with res obtain n where n: "1 \<le> n" "c' = Suc n"
      "\<forall>m. 1 \<le> m \<and> m < n \<longrightarrow> checkNamingConflict st p (candidate b m) par ex"
      by auto
    have f: "\<forall>nm \<in> set (triedNames b n). checkNamingConflict st p nm par ex"
      using True n(3) by (auto simp: triedNames_def)
    have s: "set (triedNames b n) \<subseteq> set (triedNames b c')"
      using n(2) by (auto simp: triedNames_def)
    from failed_names_bound[OF f distinct_triedNames s]
    have "length (triedNames b n) \<le> length (conflictingSiblings st p par ex (triedNames b c'))" .
    moreover have "length (triedNames b n) = n" using n(1) by (simp add: triedNames_def)
    ultimately show ?thesis using n(2) by simp
  qed
  show ?thesis using A B C D stem_ext_join[of b] unfolding g k by blast
qed

theorem C7_generateUniqueName_witness:
  "generateUniqueName namesStore ''P'' ''README.md'' None None = ''README.md'' \<and>
   (\<exists>n\<ge>1. generateUniqueName namesStore ''P'' ''App.js'' None None =
              nameWithoutExt ''App.js'' @ '' ('' @ stringOfNat n @ '')'' @ extension ''App.js'' \<and>
            conflictChecks namesStore ''P'' ''App.js'' None None = n + 1) \<and>
   generateUniqueName namesStore ''P'' ''App.js'' None None = ''App (2).js'' \<and>
   conflictChecks namesStore ''P'' ''App.js'' None None = 3 \<and>
   length (conflictingSiblings namesStore ''P'' None None (triedNames ''App.js'' 3)) = 2"
  using C7_generateUniqueName [of namesStore "''P''" "''App.js''" None None]
        C7_generateUniqueName [of namesStore "''P''" "''README.md''" None None]
        names_eval
  by auto

section \<open>Properties of the descendant traversal\<close>

lemma findById_distinct:
  assumes "distinct (map fid st)" "f \<in> set st"
  shows "findById st (fid f) = Some f"
  using assms unfolding findById_def
proof (induction st)
  case Nil
  then show ?case by simp
next
  case (Cons g st)
  then show ?case by (cases "fid g = fid f") force+
qed

lemma findById_Some: "findById st i = Some f \<Longrightarrow> f \<in> set st \<and> fid f = i"
  unfolding findById_def by (auto simp: find_Some_iff)

lemma parentOf_node: "distinct (map fid st) \<Longrightarrow> f \<in> set st \<Longrightarrow> parentOf st (fid f) = parentId f"
  by (simp add: parentOf_def findById_distinct)

lemma parentOf_Some: "parentOf st i = Some p \<Longrightarrow> \<exists>f \<in> set st. fid f = i \<and> parentId f = Some p \<and> findById st i = Some f"
  unfolding parentOf_def by (auto split: option.splits dest: findById_Some)

lemma nthAncestor_add:
  "nthAncestor st i (a + b) = (case nthAncestor st i a of None \<Rightarrow> None | Some q \<Rightarrow> nthAncestor st q b)"
  by (induction a arbitrary: i) (auto split: option.splits)

lemma nthAncestor_Suc_top:
  "nthAncestor st i (Suc k) = (case nthAncestor st i k of None \<Rightarrow> None | Some q \<Rightarrow> parentOf st q)"
  using nthAncestor_add[of st i k 1] by (auto split: option.splits)

lemma nthAncestor_None_later: "nthAncestor st i a = None \<Longrightarrow> a \<le> b \<Longrightarrow> nthAncestor st i b = None"
  using nthAncestor_add[of st i a "b - a"] by simp

lemma mset_filter_disj:
  "(\<And>x. x \<in> set xs \<Longrightarrow> \<not> (P x \<and> Q x)) \<Longrightarrow>
     mset (filter (\<lambda>x. P x \<or> Q x) xs) = mset (filter P xs) + mset (filter Q xs)"
  by (induction xs) auto

lemma mset_concat_filters:
  assumes "distinct (map key cs)"
  shows "mset (concat (map (\<lambda>c. filter (\<lambda>f. h f = Some (key c)) st) cs))
         = mset (filter (\<lambda>f. \<exists>c \<in> set cs. h f = Some (key c)) st)"
  using assms
proof (induction cs)
  case Nil
  then show ?case by simp
next
  case (Cons c cs)
  from Cons.prems have nk: "key c \<notin> key ` set cs" by simp
  have ex: "\<not> (h x = Some (key c) \<and> (\<exists>c' \<in> set cs. h x = Some (key c')))" if "x \<in> set st" for x
  proof
    assume "h x = Some (key c) \<and> (\<exists>c' \<in> set cs. h x = Some (key c'))"
    then obtain c' where "c' \<in> set cs" "key c' = key c" by auto
    with nk show False by (metis imageI)
  qed
  have "mset (filter (\<lambda>f. \<exists>c' \<in> set (c # cs). h f = Some (key c')) st)
        = mset (filter (\<lambda>f. h f = Some (key c) \<or> (\<exists>c' \<in> set cs. h f = Some (key c'))) st)"
    by simp
  also have "\<dots> = mset (filter (\<lambda>f. h f = Some (key c)) st) + mset (filter (\<lambda>f. \<exists>c' \<in> set cs. h f = Some (key c')) st)"
    using ex by (rule mset_filter_disj)
  finally show ?case using Cons by simp
qed

lemma distinct_kidsOf: "distinct (map fid st) \<Longrightarrow> distinct (map fid (kidsOf st p))"
  unfolding kidsOf_def by (rule distinct_map_filter)

lemma level_Suc:
  assumes d: "distinct (map fid st)"
  shows "mset (level st p (Suc j)) = mset (concat (map (\<lambda>c. level st (fid c) j) (kidsOf st p)))"
proof -
  have eq: "(\<exists>c \<in> set (kidsOf st p). nthAncestor st (fid f) j = Some (fid c))
                 = (nthAncestor st (fid f) (Suc j) = Some p)" for f
  proof
    assume "\<exists>c \<in> set (kidsOf st p). nthAncestor st (fid f) j = Some (fid c)"
    then obtain c where c: "c \<in> set st" "parentId c = Some p" "nthAncestor st (fid f) j = Some (fid c)"
      by (auto simp: kidsOf_def)
    then show "nthAncestor st (fid f) (Suc j) = Some p"
      by (simp add: nthAncestor_Suc_top parentOf_node[OF d] del: nthAncestor.simps)
  next
    assume "nthAncestor st (fid f) (Suc j) = Some p"
    then obtain q where q: "nthAncestor st (fid f) j = Some q" "parentOf st q = Some p"
      by (auto simp: nthAncestor_Suc_top simp del: nthAncestor.simps split: option.splits)
    from parentOf_Some[OF q(2)] obtain c where "c \<in> set st" "fid c = q" "parentId c = Some p" by blast
    with q(1) show "\<exists>c \<in> set (kidsOf st p). nthAncestor st (fid f) j = Some (fid c)"
      by (auto simp: kidsOf_def)
  qed
  have "mset (concat (map (\<lambda>c. level st (fid c) j) (kidsOf st p)))
        = mset (filter (\<lambda>f. \<exists>c \<in> set (kidsOf st p). nthAncestor st (fid f) j = Some (fid c)) st)"
    unfolding level_def by (rule mset_concat_filters[OF distinct_kidsOf[OF d]])
  also have "\<dots> = mset (level st p (Suc j))"
    unfolding level_def eq ..
  finally show ?thesis by simp
qed

lemma level_0: "distinct (map fid st) \<Longrightarrow> c \<in> set st \<Longrightarrow> level st (fid c) 0 = [c]"
proof (induction st)
  case Nil
  then show ?case by simp
next
  case (Cons g st)
  show ?case
  proof (cases "c = g")
    case True
    have "filter (\<lambda>f. fid f = fid g) st = []"
      using Cons.prems(1) by (auto simp: filter_empty_conv image_iff)
    with True show ?thesis by (simp add: level_def)
  next
    case False
    with Cons.prems have c: "c \<in> set st" by simp
    with Cons.prems(1) have "fid g \<noteq> fid c" by auto
    with Cons.IH[OF _ c] Cons.prems(1) show ?thesis by (simp add: level_def)
  qed
qed

lemma level_1: "distinct (map fid st) \<Longrightarrow> level st p (Suc 0) = kidsOf st p"
  unfolding level_def kidsOf_def
  by (rule filter_cong) (simp_all add: parentOf_node split: option.splits)

lemma level_node:
  assumes "nthAncestor st i a = Some q" "nthAncestor st q (Suc j) = Some p"
  shows "\<exists>g \<in> set st. fid g = q"
proof -
  from assms(2) obtain r where "parentOf st q = Some r" by (auto split: option.splits)
  from parentOf_Some[OF this] show ?thesis by blast
qed

lemma level_empty_later:
  assumes "level st p (Suc j) = []" "Suc j \<le> k"
  shows "level st p k = []"
proof (rule ccontr)
  assume "level st p k \<noteq> []"
  then obtain f where f: "f \<in> set st" "nthAncestor st (fid f) k = Some p"
    by (auto simp: level_def filter_empty_conv)
  from assms(2) obtain a where k: "k = a + Suc j" by (metis le_add_diff_inverse2)
  from f(2) obtain q where q: "nthAncestor st (fid f) a = Some q" "nthAncestor st q (Suc j) = Some p"
    unfolding k nthAncestor_add by (auto split: option.splits)
  from level_node[OF q] obtain g where "g \<in> set st" "fid g = q" by blast
  with q(2) have "g \<in> set (level st p (Suc j))" by (simp add: level_def del: nthAncestor.simps)
  with assms(1) show False by simp
qed


lemma forEach_collect:
  "forEach (\<lambda>c a. map_option ((@) a) (stp c)) cs acc = map_option (\<lambda>r. acc @ concat r) (those (map stp cs))"
proof (induction cs arbitrary: acc)
  case Nil
  then show ?case by simp
next
  case (Cons c cs)
  show ?case
  proof (cases "stp c")
    case None
    then show ?thesis by simp
  next
    case (Some s)
    then show ?thesis
      by (cases "those (map stp cs)") (simp_all add: Cons.IH)
  qed
qed

lemma getChildren_acc:
  "getChildren d st p acc = map_option ((@) acc) (getChildren d st p [])"
proof (induction d arbitrary: p acc)
  case 0
  then show ?case by simp
next
  case (Suc d)
  have body: "(\<lambda>c a. if ftype c = Folder then getChildren d st (fid c) (a @ [c]) else Some (a @ [c]))
              = (\<lambda>c a. map_option ((@) a) (visitChild d st c))"
  proof (intro ext)
    fix c a
    show "(if ftype c = Folder then getChildren d st (fid c) (a @ [c]) else Some (a @ [c]))
              = map_option ((@) a) (visitChild d st c)"
      using Suc.IH[of "fid c" "a @ [c]"]
      by (cases "getChildren d st (fid c) []") (simp_all add: visitChild_def)
  qed
  have u: "getChildren (Suc d) st p a = map_option (\<lambda>r. a @ concat r) (those (map (visitChild d st) (kidsOf st p)))" for a
    unfolding getChildren.simps body by (rule forEach_collect)
  show ?case unfolding u[of acc] u[of "[]"]
    by (cases "those (map (visitChild d st) (kidsOf st p))") simp_all
qed

lemma getChildren_unfold:
  "getChildren (Suc d) st p [] = map_option concat (those (map (visitChild d st) (kidsOf st p)))"
proof -
  have body: "(\<lambda>c a. if ftype c = Folder then getChildren d st (fid c) (a @ [c]) else Some (a @ [c]))
              = (\<lambda>c a. map_option ((@) a) (visitChild d st c))"
  proof (intro ext)
    fix c a
    show "(if ftype c = Folder then getChildren d st (fid c) (a @ [c]) else Some (a @ [c]))
              = map_option ((@) a) (visitChild d st c)"
      using getChildren_acc[of d st "fid c" "a @ [c]"]
      by (cases "getChildren d st (fid c) []") (simp_all add: visitChild_def)
  qed
  have "getChildren (Suc d) st p [] = map_option (\<lambda>r. [] @ concat r) (those (map (visitChild d st) (kidsOf st p)))"
    unfolding getChildren.simps body by (rule forEach_collect)
  then show ?thesis by (simp add: option.map_ident cong: option.map_cong)
qed


lemma sum_list_swap:
  fixes F :: "'a \<Rightarrow> 'b \<Rightarrow> 'c::comm_monoid_add"
  shows "sum_list (map (\<lambda>c. sum_list (map (F c) js)) cs) = sum_list (map (\<lambda>j. sum_list (map (\<lambda>c. F c j) cs)) js)"
proof (induction js)
  case Nil
  then show ?case by simp
next
  case (Cons j js)
  then show ?case by (simp add: sum_list_addf)
qed

lemma sum_list_add_mset: "sum_list (map (\<lambda>c. add_mset c (G c)) cs) = mset cs + sum_list (map G cs)"
  by (induction cs) simp_all

lemma levelsSum_Suc:
  assumes d: "distinct (map fid st)"
  shows "levelsSum st p (Suc n) = mset (kidsOf st p) + sum_list (map (\<lambda>c. levelsSum st (fid c) n) (kidsOf st p))"
proof -
  have "[1..<Suc (Suc n)] = 1 # map Suc [1..<Suc n]"
    by (simp add: map_Suc_upt upt_conv_Cons del: upt_Suc)
  then have "levelsSum st p (Suc n) = mset (level st p 1) + sum_list (map (\<lambda>j. mset (level st p (Suc j))) [1..<Suc n])"
    by (simp add: levelsSum_def comp_def del: upt_Suc)
  also have "sum_list (map (\<lambda>j. mset (level st p (Suc j))) [1..<Suc n])
             = sum_list (map (\<lambda>j. sum_list (map (\<lambda>c. mset (level st (fid c) j)) (kidsOf st p))) [1..<Suc n])"
    by (simp add: level_Suc[OF d] mset_concat comp_def del: upt_Suc)
  also have "\<dots> = sum_list (map (\<lambda>c. sum_list (map (\<lambda>j. mset (level st (fid c) j)) [1..<Suc n])) (kidsOf st p))"
    by (rule sum_list_swap[symmetric])
  finally show ?thesis by (simp add: levelsSum_def level_1[OF d] del: upt_Suc)
qed

lemma sum_list_all_empty: "\<forall>m \<in> set ms. m = {#} \<Longrightarrow> sum_list ms = ({#} :: 'a multiset)"
  by (induction ms) simp_all

lemma levelsSum_leaf:
  assumes "kidsOf st q = []" "distinct (map fid st)"
  shows "levelsSum st q n = {#}"
proof -
  have "level st q (Suc 0) = []" using level_1[OF assms(2), of q] assms(1) by simp
  then have "level st q j = []" if "j \<in> set [1..<Suc n]" for j
  proof -
    from that have "Suc 0 \<le> j" by (simp del: upt_Suc)
    with \<open>level st q (Suc 0) = []\<close> show ?thesis by (rule level_empty_later)
  qed
  then have "\<forall>m \<in> set (map (\<lambda>j. mset (level st q j)) [1..<Suc n]). m = {#}"
    by (auto simp del: upt_Suc)
  then have "sum_list (map (\<lambda>j. mset (level st q j)) [1..<Suc n]) = {#}"
    by (rule sum_list_all_empty)
  then show ?thesis by (simp only: levelsSum_def)
qed

lemma list_all2_map_eq:
  "list_all2 (\<lambda>x y. g y = f x) xs ys \<Longrightarrow> map g ys = map f xs"
  by (induction rule: list_all2_induct) simp_all

lemma getChildren_levels:
  assumes d: "distinct (map fid st)" and pf: "parentsAreFolders st"
  shows "getChildren n st p [] = Some ds \<Longrightarrow> mset ds = levelsSum st p n"
proof (induction n arbitrary: p ds)
  case 0
  then show ?case by simp
next
  case (Suc n)
  from Suc.prems obtain r where r: "those (map (visitChild n st) (kidsOf st p)) = Some r" and ds: "ds = concat r"
    unfolding getChildren_unfold by (cases "those (map (visitChild n st) (kidsOf st p))") simp_all
  from r have l2: "list_all2 (\<lambda>c s. visitChild n st c = Some s) (kidsOf st p) r" by (rule those_map_Some)
  have each: "list_all2 (\<lambda>c s. mset s = {#c#} + levelsSum st (fid c) n) (kidsOf st p) r"
    unfolding list_all2_conv_all_nth
  proof (intro conjI allI impI)
    show "length (kidsOf st p) = length r" using l2 by (rule list_all2_lengthD)
  next
    fix i assume i: "i < length (kidsOf st p)"
    let ?c = "kidsOf st p ! i"
    from i have cin: "?c \<in> set st" using nth_mem[OF i] by (simp add: kidsOf_def)
    from l2 i have st: "visitChild n st ?c = Some (r ! i)" by (simp add: list_all2_conv_all_nth)
    show "mset (r ! i) = {#?c#} + levelsSum st (fid ?c) n"
    proof (cases "ftype ?c")
      case Folder
      with st obtain sub where sub: "getChildren n st (fid ?c) [] = Some sub" "r ! i = ?c # sub"
        by (auto simp: visitChild_def)
      from Suc.IH[OF sub(1)] sub(2) show ?thesis by simp
    next
      case File
      with st have "r ! i = [?c]" by (auto simp: visitChild_def)
      moreover from pf cin File have "kidsOf st (fid ?c) = []"
        by (simp add: parentsAreFolders_def list_all_iff)
      ultimately show ?thesis by (simp add: levelsSum_leaf[OF _ d])
    qed
  qed
  then have "map mset r = map (\<lambda>c. {#c#} + levelsSum st (fid c) n) (kidsOf st p)"
    by (rule list_all2_map_eq)
  then have "mset ds = sum_list (map (\<lambda>c. {#c#} + levelsSum st (fid c) n) (kidsOf st p))"
    by (simp add: ds mset_concat)
  also have "\<dots> = mset (kidsOf st p) + sum_list (map (\<lambda>c. levelsSum st (fid c) n) (kidsOf st p))"
    by (simp add: sum_list_add_mset)
  finally show ?case by (simp add: levelsSum_Suc[OF d])
qed

lemma those_map_total:
  "(\<And>x. x \<in> set xs \<Longrightarrow> f x \<noteq> None) \<Longrightarrow> \<exists>ys. those (map f xs) = Some ys"
proof (induction xs)
  case Nil
  then show ?case by simp
next
  case (Cons x xs)
  then obtain y ys where "f x = Some y" "those (map f xs) = Some ys" by force
  then show ?case by simp
qed

lemma level_kid_empty:
  assumes d: "distinct (map fid st)" and e: "level st p (Suc (Suc n)) = []" and c: "c \<in> set (kidsOf st p)"
  shows "level st (fid c) (Suc n) = []"
proof -
  from level_Suc[OF d, of p "Suc n"] e
  have "mset (concat (map (\<lambda>c. level st (fid c) (Suc n)) (kidsOf st p))) = {#}" by simp
  then have "concat (map (\<lambda>c. level st (fid c) (Suc n)) (kidsOf st p)) = []" by simp
  with c show ?thesis by simp
qed

lemma getChildren_returns:
  assumes d: "distinct (map fid st)"
  shows "level st p (Suc n) = [] \<Longrightarrow> \<exists>ds. getChildren (Suc n) st p [] = Some ds"
proof (induction n arbitrary: p)
  case 0
  then have "kidsOf st p = []" using level_1[OF d, of p] by simp
  then show ?case unfolding getChildren_unfold by simp
next
  case (Suc n)
  have "visitChild (Suc n) st c \<noteq> None" if "c \<in> set (kidsOf st p)" for c
  proof -
    from level_kid_empty[OF d Suc.prems that] have "level st (fid c) (Suc n) = []" .
    from Suc.IH[OF this] show ?thesis by (auto simp: visitChild_def)
  qed
  from those_map_total[of "kidsOf st p" "visitChild (Suc n) st", OF this]
  obtain r where "those (map (visitChild (Suc n) st) (kidsOf st p)) = Some r" by blast
  then show ?case unfolding getChildren_unfold by simp
qed


lemma nthAncestor_periodic:
  assumes "nthAncestor st i a = Some p" "nthAncestor st p c = Some p"
  shows "nthAncestor st i (a + m * c) = Some p"
proof (induction m)
  case 0
  then show ?case using assms(1) by simp
next
  case (Suc m)
  have "nthAncestor st i ((a + m * c) + c) = Some p"
    unfolding nthAncestor_add[of st i "a + m * c" c] using Suc assms(2) by simp
  moreover have "a + Suc m * c = (a + m * c) + c" by simp
  ultimately show ?case by (simp only:)
qed

lemma level_unique:
  assumes e: "level st p (Suc d) = []" and f: "f \<in> set st"
      and a: "nthAncestor st (fid f) a = Some p" and b: "nthAncestor st (fid f) b = Some p" and ab: "a < b"
  shows False
proof -
  from ab obtain c where c: "b = a + c" "0 < c" by (metis less_imp_add_positive)
  from b a have loop: "nthAncestor st p c = Some p" unfolding c(1) nthAncestor_add by simp
  from nthAncestor_periodic[OF a loop, of "Suc d"]
  have "nthAncestor st (fid f) (a + Suc d * c) = Some p" .
  with f have "f \<in> set (level st p (a + Suc d * c))" by (simp add: level_def)
  moreover have "Suc d \<le> a + Suc d * c"
  proof -
    from c(2) obtain c' where "c = Suc c'" by (cases c) auto
    then show ?thesis by simp
  qed
  from level_empty_later[OF e this] have "level st p (a + Suc d * c) = []" .
  ultimately show False by simp
qed

lemma sum_filters:
  assumes "distinct js"
      and "\<forall>f \<in> set st. \<forall>j \<in> set js. \<forall>j' \<in> set js. j \<noteq> j' \<longrightarrow> \<not> (P j f \<and> P j' f)"
  shows "sum_list (map (\<lambda>j. mset (filter (P j) st)) js) = mset (filter (\<lambda>f. \<exists>j \<in> set js. P j f) st)"
  using assms
proof (induction js)
  case Nil
  then show ?case by simp
next
  case (Cons j js)
  from Cons.prems(1) have dj: "distinct js" and nj: "j \<notin> set js" by simp_all
  from Cons.prems(2) have excl: "\<forall>f \<in> set st. \<forall>j \<in> set js. \<forall>j' \<in> set js. j \<noteq> j' \<longrightarrow> \<not> (P j f \<and> P j' f)"
    by simp
  have ih: "sum_list (map (\<lambda>j. mset (filter (P j) st)) js) = mset (filter (\<lambda>f. \<exists>j \<in> set js. P j f) st)"
    using dj excl by (rule Cons.IH)
  have ex: "\<not> (P j x \<and> (\<exists>j' \<in> set js. P j' x))" if "x \<in> set st" for x
  proof
    assume "P j x \<and> (\<exists>j' \<in> set js. P j' x)"
    then obtain j' where j': "j' \<in> set js" "P j' x" "P j x" by blast
    with nj have "j \<noteq> j'" by blast
    moreover from Cons.prems(2) that j'(1) have "j \<noteq> j' \<longrightarrow> \<not> (P j x \<and> P j' x)" by simp
    ultimately show False using j' by blast
  qed
  have "mset (filter (\<lambda>f. \<exists>j' \<in> set (j # js). P j' f) st)
        = mset (filter (\<lambda>f. P j f \<or> (\<exists>j' \<in> set js. P j' f)) st)" by simp
  also have "\<dots> = mset (filter (P j) st) + mset (filter (\<lambda>f. \<exists>j' \<in> set js. P j' f) st)"
    using ex by (rule mset_filter_disj)
  finally show ?case using ih by simp
qed

lemma levelsSum_descendants:
  assumes e: "level st p (Suc d) = []"
  shows "levelsSum st p d = mset (filter (properDescendant st p) st)"
proof -
  let ?P = "\<lambda>j f. nthAncestor st (fid f) j = Some p"
  have "levelsSum st p d = sum_list (map (\<lambda>j. mset (filter (?P j) st)) [1..<Suc d])"
    by (simp only: levelsSum_def level_def)
  also have "\<dots> = mset (filter (\<lambda>f. \<exists>j \<in> set [1..<Suc d]. ?P j f) st)"
  proof (rule sum_filters)
    show "distinct [1..<Suc d]" by simp
  next
    show "\<forall>f \<in> set st. \<forall>j \<in> set [1..<Suc d]. \<forall>j' \<in> set [1..<Suc d]. j \<noteq> j' \<longrightarrow> \<not> (?P j f \<and> ?P j' f)"
    proof (intro ballI impI notI)
      fix f and j j' :: nat assume f: "f \<in> set st" and ne: "j \<noteq> j'" and both: "?P j f \<and> ?P j' f"
      show False
      proof (cases "j < j'")
        case True
        from level_unique[OF e f _ _ True] both show False by blast
      next
        case False
        with ne have "j' < j" by simp
        from level_unique[OF e f _ _ this] both show False by blast
      qed
    qed
  qed
  also have "filter (\<lambda>f. \<exists>j \<in> set [1..<Suc d]. ?P j f) st = filter (properDescendant st p) st"
  proof (rule filter_cong[OF refl])
    fix f assume f: "f \<in> set st"
    show "(\<exists>j \<in> set [1..<Suc d]. ?P j f) = properDescendant st p f"
    proof
      assume "\<exists>j \<in> set [1..<Suc d]. ?P j f"
      then obtain j where "1 \<le> j" "?P j f" by (auto simp del: upt_Suc)
      then obtain k where "j = Suc k" by (cases j) auto
      with \<open>?P j f\<close> show "properDescendant st p f" unfolding properDescendant_def by blast
    next
      assume "properDescendant st p f"
      then obtain k where k: "?P (Suc k) f" unfolding properDescendant_def by blast
      have "Suc k \<le> d"
      proof (rule ccontr)
        assume "\<not> Suc k \<le> d"
        then have "Suc d \<le> Suc k" by simp
        from level_empty_later[OF e this] have "level st p (Suc k) = []" .
        moreover from f k have "f \<in> set (level st p (Suc k))" by (simp add: level_def del: nthAncestor.simps)
        ultimately show False by simp
      qed
      with k show "\<exists>j \<in> set [1..<Suc d]. ?P j f" by (intro bexI[of _ "Suc k"]) (simp_all del: nthAncestor.simps upt_Suc)
    qed
  qed
  finally show ?thesis .
qed

lemma chainsEnd_level:
  assumes "chainsEnd st" "length st < d"
  shows "level st p d = []"
proof -
  have "nthAncestor st (fid f) d = None" if "f \<in> set st" for f
  proof -
    from assms(1) that have "nthAncestor st (fid f) (Suc (length st)) = None"
      by (simp add: chainsEnd_def list_all_iff del: nthAncestor.simps)
    moreover from assms(2) have "Suc (length st) \<le> d" by simp
    ultimately show ?thesis by (rule nthAncestor_None_later)
  qed
  then show ?thesis by (simp add: level_def filter_empty_conv)
qed


lemma toNumber_exact: "n \<le> 2 ^ 53 \<Longrightarrow> toNumber n = Finite n"
  by (simp add: toNumber_def)

lemma bitLength_bounds: "2 ^ k \<le> n \<Longrightarrow> n < 2 ^ Suc k \<Longrightarrow> bitLength n = Suc k"
proof (induction k arbitrary: n)
  case 0
  then have "n = 1" by simp
  then show ?case by (simp add: bitLength.simps[of "Suc 0"] bitLength.simps[of 0])
next
  case (Suc k)
  from Suc.prems have "2 ^ k \<le> n div 2" "n div 2 < 2 ^ Suc k" by simp_all
  from Suc.IH[OF this] have "bitLength (n div 2) = Suc k" .
  moreover from Suc.prems have "n \<noteq> 0" by auto
  ultimately show ?case by (subst bitLength.simps) simp
qed

lemma rounded_sum: "addNumber (addNumber (Finite 0) (2 ^ 53 - 1)) 2 = Finite (2 ^ 53)"
proof -
  have b: "bitLength (2 ^ 53 + 1) = Suc 53" by (rule bitLength_bounds) simp_all
  have n: "nearestDouble (2 ^ 53 + 1) = 2 ^ 53"
    unfolding nearestDouble_def b by (simp add: Let_def)
  have "toNumber (2 ^ 53 + 1) = Finite (2 ^ 53)"
    unfolding toNumber_def n by simp
  then show ?thesis by (simp add: toNumber_exact)
qed

lemma foldl_sizes:
  "a + sum_list (map fsize xs) \<le> 2 ^ 53 \<Longrightarrow>
   foldl (\<lambda>total f. addNumber total (fsize f)) (Finite a) xs = Finite (a + sum_list (map fsize xs))"
proof (induction xs arbitrary: a)
  case Nil
  then show ?case by simp
next
  case (Cons x xs)
  from Cons.prems have le: "a + fsize x \<le> 2 ^ 53" and rest: "(a + fsize x) + sum_list (map fsize xs) \<le> 2 ^ 53"
    by simp_all
  from Cons.IH[OF rest] le show ?case by (simp add: toNumber_exact add.assoc)
qed

lemma sum_sizes_mset:
  assumes "mset xs = mset ys"
  shows "sum_list (map fsize (filter P xs)) = sum_list (map fsize (filter P ys))"
proof -
  have "mset (map fsize (filter P xs)) = mset (map fsize (filter P ys))"
    using assms by (metis mset_filter mset_map)
  then show ?thesis by (metis sum_mset_sum_list)
qed

lemma sum_sizes_filter_le: "sum_list (map fsize (filter P xs)) \<le> sum_list (map fsize xs)"
  by (induction xs) simp_all

lemma descendants_total:
  assumes d: "distinct (map fid st)" and pf: "parentsAreFolders st"
    and e: "level st p (Suc m) = []" and n: "m < n"
  shows "\<exists>ds. getAllDescendants n st p = Some ds \<and> mset ds = mset (filter (properDescendant st p) st)"
proof -
  from n obtain j where j: "n = Suc j" "m \<le> j" by (cases n) auto
  from level_empty_later[OF e, of "Suc j"] j(2) have ej: "level st p (Suc j) = []" by simp
  from getChildren_returns[OF d ej] obtain ds where ds: "getChildren (Suc j) st p [] = Some ds" by blast
  from getChildren_levels[OF d pf ds] have "mset ds = levelsSum st p (Suc j)" .
  moreover have "level st p (Suc (Suc j)) = []" using level_empty_later[OF ej, of "Suc (Suc j)"] by simp
  from levelsSum_descendants[OF this] have "levelsSum st p (Suc j) = mset (filter (properDescendant st p) st)" .
  ultimately show ?thesis using ds j(1) by (simp add: getAllDescendants_def)
qed

lemma those_map_each: "those (map f xs) = Some ys \<Longrightarrow> x \<in> set xs \<Longrightarrow> f x \<noteq> None"
  by (induction xs arbitrary: ys) (auto split: option.splits)

lemma getChildren_bounded:
  assumes d: "distinct (map fid st)" and pf: "parentsAreFolders st"
  shows "getChildren n st p [] = Some ds \<Longrightarrow> level st p (Suc n) = []"
proof (induction n arbitrary: p ds)
  case 0
  then show ?case by simp
next
  case (Suc n)
  from Suc.prems obtain rs where rs: "those (map (visitChild n st) (kidsOf st p)) = Some rs"
    unfolding getChildren_unfold by auto
  have each: "level st (fid c) (Suc n) = []" if c: "c \<in> set (kidsOf st p)" for c
  proof (cases "ftype c")
    case Folder
    from those_map_each[OF rs c] have "visitChild n st c \<noteq> None" .
    with Folder obtain r where "getChildren n st (fid c) [] = Some r" by (auto simp: visitChild_def)
    from Suc.IH[OF this] show ?thesis .
  next
    case File
    from c have "c \<in> set st" by (simp add: kidsOf_def)
    with pf File have "kidsOf st (fid c) = []" by (auto simp: parentsAreFolders_def list_all_iff)
    then have "level st (fid c) (Suc 0) = []" using level_1[OF d] by simp
    from level_empty_later[OF this, of "Suc n"] show ?thesis by simp
  qed
  then have "concat (map (\<lambda>c. level st (fid c) (Suc n)) (kidsOf st p)) = []" by simp
  with level_Suc[OF d, of p "Suc n"] have "mset (level st p (Suc (Suc n))) = {#}" by simp
  then show ?case by simp
qed

lemma traversal_returns_iff:
  assumes d: "distinct (map fid st)" and pf: "parentsAreFolders st"
  shows "(\<exists>depth ds. getAllDescendants depth st p = Some ds) = (\<exists>n. level st p (Suc n) = [])"
proof
  assume "\<exists>depth ds. getAllDescendants depth st p = Some ds"
  then obtain depth ds where "getChildren depth st p [] = Some ds" by (auto simp: getAllDescendants_def)
  from getChildren_bounded[OF d pf this] show "\<exists>n. level st p (Suc n) = []" by blast
next
  assume "\<exists>n. level st p (Suc n) = []"
  then obtain n where "level st p (Suc n) = []" by blast
  from getChildren_returns[OF d this] obtain ds where "getChildren (Suc n) st p [] = Some ds" by blast
  then have "getAllDescendants (Suc n) st p = Some ds" by (simp only: getAllDescendants_def)
  then show "\<exists>depth ds. getAllDescendants depth st p = Some ds" by blast
qed

lemma cyclic_traversal:
  "getChildren depth cyclicStore ''1'' acc = None \<and> getChildren depth cyclicStore ''2'' acc = None"
proof (induction depth arbitrary: acc)
  case 0
  show ?case by simp
next
  case (Suc depth)
  have k: "kidsOf cyclicStore ''1'' = [mkFolder ''2'' ''P'' ''b'' (Some ''1'')]"
          "kidsOf cyclicStore ''2'' = [mkFolder ''1'' ''P'' ''a'' (Some ''2'')]"
    by (simp_all add: kidsOf_def cyclicStore_def mkFolder_def)
  have t: "ftype (mkFolder i pr nm par) = Folder" "fid (mkFolder i pr nm par) = i" for i pr nm par
    by (simp_all add: mkFolder_def)
  from Suc show ?case by (simp add: k t)
qed

text \<open>
  C8 (as the code has it). On a store with unique identifiers in which no file is a
  parent, \<open>calculateFolderSize\<close> returns exactly when, from some distance on, no
  document has the folder as its ancestor at that distance (there is no parent cycle
  below the folder). Given a recursion depth above that distance and a total of at most
  \<open>2 ^ 53\<close>, it returns the sum of \<open>size\<close> over the documents of type file that have
  the folder among their proper ancestors; folders add nothing. On the sample project,
  the folder with files of 100 and 250 bytes and a nested folder holding a file of 50
  bytes has size 400.
\<close>

theorem C8_calculateFolderSize:
  "(distinct (map fid st) \<and> parentsAreFolders st \<longrightarrow>
      (\<exists>depth total. calculateFolderSize depth st folderId = Some total) =
      (\<exists>n. level st folderId (Suc n) = [])) \<and>
   (distinct (map fid st) \<and> parentsAreFolders st \<and> level st folderId (Suc n) = [] \<and> n < depth \<and>
    sum_list (map fsize (filter (\<lambda>f. ftype f = File \<and> properDescendant st folderId f) st)) \<le> 2 ^ 53 \<longrightarrow>
      calculateFolderSize depth st folderId =
        Some (Finite (sum_list (map fsize (filter (\<lambda>f. ftype f = File \<and> properDescendant st folderId f) st))))) \<and>
   calculateFolderSize 3 sampleStore ''1'' = Some (Finite 400)"
proof (intro conjI impI)
  assume "distinct (map fid st) \<and> parentsAreFolders st"
  then have "(\<exists>depth ds. getAllDescendants depth st folderId = Some ds) = (\<exists>n. level st folderId (Suc n) = [])"
    by (intro traversal_returns_iff) simp_all
  moreover have "(\<exists>depth total. calculateFolderSize depth st folderId = Some total)
                 = (\<exists>depth ds. getAllDescendants depth st folderId = Some ds)"
    by (auto simp: calculateFolderSize_def split: option.splits)
  ultimately show "(\<exists>depth total. calculateFolderSize depth st folderId = Some total) =
                   (\<exists>n. level st folderId (Suc n) = [])"
    by (simp only:)
next
  let ?total = "sum_list (map fsize (filter (\<lambda>f. ftype f = File \<and> properDescendant st folderId f) st))"
  assume a: "distinct (map fid st) \<and> parentsAreFolders st \<and> level st folderId (Suc n) = [] \<and> n < depth \<and>
             ?total \<le> 2 ^ 53"
  then have "\<exists>ds. getAllDescendants depth st folderId = Some ds \<and>
                 mset ds = mset (filter (properDescendant st folderId) st)"
    by (intro descendants_total[of st folderId n depth]) simp_all
  then obtain ds where ds: "getAllDescendants depth st folderId = Some ds"
    "mset ds = mset (filter (properDescendant st folderId) st)"
    by blast
  have "sum_list (map fsize (filter (\<lambda>i. ftype i = File) ds))
        = sum_list (map fsize (filter (\<lambda>i. ftype i = File) (filter (properDescendant st folderId) st)))"
    using ds(2) by (rule sum_sizes_mset)
  also have "filter (\<lambda>i. ftype i = File) (filter (properDescendant st folderId) st)
             = filter (\<lambda>f. ftype f = File \<and> properDescendant st folderId f) st"
    by (simp add: conj_commute)
  finally have eq: "sum_list (map fsize (filter (\<lambda>i. ftype i = File) ds)) = ?total" .
  with a have "0 + sum_list (map fsize (filter (\<lambda>i. ftype i = File) ds)) \<le> 2 ^ 53" by simp
  from foldl_sizes[OF this] eq ds(1)
  show "calculateFolderSize depth st folderId = Some (Finite ?total)"
    by (simp add: calculateFolderSize_def)
next
  have "getAllDescendants 3 sampleStore ''1'' =
          Some [mkFile ''2'' ''P'' ''App.js'' (Some ''1'') 100, mkFile ''3'' ''P'' ''index.js'' (Some ''1'') 250,
                mkFolder ''4'' ''P'' ''lib'' (Some ''1''), mkFile ''5'' ''P'' ''util.js'' (Some ''4'') 50]"
    by code_simp
  then show "calculateFolderSize 3 sampleStore ''1'' = Some (Finite 400)"
    by (simp add: calculateFolderSize_def mkFile_def mkFolder_def toNumber_exact)
qed

theorem C8_calculateFolderSize_witness:
  "(\<exists>depth total. calculateFolderSize depth besideCycle ''3'' = Some total) \<and>
   (\<nexists>depth total. calculateFolderSize depth besideCycle ''1'' = Some total) \<and>
   calculateFolderSize 7 sampleStore ''1'' =
     Some (Finite (sum_list (map fsize (filter (\<lambda>f. ftype f = File \<and> properDescendant sampleStore ''1'' f) sampleStore)))) \<and>
   calculateFolderSize 7 sampleStore ''1'' = Some (Finite 400) \<and>
   calculateFolderSize 2 besideCycle ''3'' = Some (Finite 4)"
proof -
  have i: "distinct (map fid sampleStore)" "parentsAreFolders sampleStore" "level sampleStore ''1'' (Suc 2) = []"
          "distinct (map fid besideCycle)" "parentsAreFolders besideCycle" "level besideCycle ''3'' (Suc 1) = []"
    by code_simp+
  have "getAllDescendants 7 sampleStore ''1'' =
          Some [mkFile ''2'' ''P'' ''App.js'' (Some ''1'') 100, mkFile ''3'' ''P'' ''index.js'' (Some ''1'') 250,
                mkFolder ''4'' ''P'' ''lib'' (Some ''1''), mkFile ''5'' ''P'' ''util.js'' (Some ''4'') 50]"
       "getAllDescendants 2 besideCycle ''3'' = Some [mkFile ''4'' ''P'' ''a.txt'' (Some ''3'') 4]"
    by code_simp+
  then have v: "calculateFolderSize 7 sampleStore ''1'' = Some (Finite 400)"
               "calculateFolderSize 2 besideCycle ''3'' = Some (Finite 4)"
    by (simp_all add: calculateFolderSize_def mkFile_def mkFolder_def toNumber_exact)
  have "sum_list (map fsize sampleStore) = 400" "sum_list (map fsize besideCycle) = 4"
    by (simp_all add: sampleStore_def besideCycle_def cyclicStore_def mkFile_def mkFolder_def)
  with sum_sizes_filter_le[of "\<lambda>f. ftype f = File \<and> properDescendant sampleStore ''1'' f" sampleStore]
       sum_sizes_filter_le[of "\<lambda>f. ftype f = File \<and> properDescendant besideCycle ''3'' f" besideCycle]
  have b: "sum_list (map fsize (filter (\<lambda>f. ftype f = File \<and> properDescendant sampleStore ''1'' f) sampleStore)) \<le> 2 ^ 53"
          "sum_list (map fsize (filter (\<lambda>f. ftype f = File \<and> properDescendant besideCycle ''3'' f) besideCycle)) \<le> 2 ^ 53"
    by simp_all
  from C8_calculateFolderSize [of sampleStore "''1''" 2 7] i v b
  have s: "calculateFolderSize 7 sampleStore ''1'' =
     Some (Finite (sum_list (map fsize (filter (\<lambda>f. ftype f = File \<and> properDescendant sampleStore ''1'' f) sampleStore))))"
    by (simp del: nthAncestor.simps)
  have ex: "\<exists>n. level besideCycle ''3'' (Suc n) = []" using i(6) by blast
  from C8_calculateFolderSize [of besideCycle "''3''" 1 2] i(4,5) ex
  have r3: "\<exists>depth total. calculateFolderSize depth besideCycle ''3'' = Some total"
    by (simp only: simp_thms)
  have nl: "level besideCycle ''1'' (Suc n) \<noteq> []" for n
  proof -
    have "nthAncestor besideCycle (if even (Suc n) then ''1'' else ''2'') (Suc n) = Some ''1''"
      unfolding besideCycle_def by (simp add: cyclic_beside del: nthAncestor.simps)
    moreover have "\<exists>f \<in> set besideCycle. fid f = (if even (Suc n) then ''1'' else ''2'')"
      by (simp add: besideCycle_def cyclicStore_def mkFolder_def mkFile_def)
    ultimately obtain f where "f \<in> set besideCycle" "nthAncestor besideCycle (fid f) (Suc n) = Some ''1''"
      by (metis (full_types))
    then have "f \<in> set (level besideCycle ''1'' (Suc n))" by (simp add: level_def del: nthAncestor.simps)
    then show ?thesis by auto
  qed
  from C8_calculateFolderSize [of besideCycle "''1''" 1 2] i(4,5) nl
  have r1: "\<nexists>depth total. calculateFolderSize depth besideCycle ''1'' = Some total"
    by (simp only: simp_thms)
  from r3 r1 s v show ?thesis by (simp only: simp_thms)
qed

text \<open>
  C8, the claim as stated, fails on two counts: for a folder on a parent cycle the
  traversal never returns, whatever the recursion depth; and the total of two files of
  \<open>2 ^ 53 - 1\<close> and 2 bytes is the rounded \<open>2 ^ 53\<close>, not their sum.
\<close>

theorem C8_no_result_on_cycle_and_rounded_total:
  "(\<forall>depth. calculateFolderSize depth cyclicStore ''1'' = None) \<and>
   calculateFolderSize 2 largeStore ''1'' = Some (Finite (2 ^ 53)) \<and>
   sum_list (map fsize (filter (\<lambda>f. ftype f = File) (kidsOf largeStore ''1''))) = 2 ^ 53 + 1"
proof (intro conjI)
  show "\<forall>depth. calculateFolderSize depth cyclicStore ''1'' = None"
    by (simp add: calculateFolderSize_def getAllDescendants_def cyclic_traversal)
next
  have "getChildren (Suc (Suc 0)) largeStore ''1'' [] =
          Some [mkFile ''2'' ''P'' ''a.bin'' (Some ''1'') (2 ^ 53 - 1), mkFile ''3'' ''P'' ''b.bin'' (Some ''1'') 2]"
    by (simp add: kidsOf_def largeStore_def mkFile_def mkFolder_def)
  moreover have "getAllDescendants 2 largeStore ''1'' = getChildren (Suc (Suc 0)) largeStore ''1'' []"
    by (simp only: getAllDescendants_def numeral_2_eq_2)
  ultimately have "getAllDescendants 2 largeStore ''1'' =
          Some [mkFile ''2'' ''P'' ''a.bin'' (Some ''1'') (2 ^ 53 - 1), mkFile ''3'' ''P'' ''b.bin'' (Some ''1'') 2]"
    by (simp only:)
  then show "calculateFolderSize 2 largeStore ''1'' = Some (Finite (2 ^ 53))"
    using rounded_sum by (simp add: calculateFolderSize_def mkFile_def)
next
  show "sum_list (map fsize (filter (\<lambda>f. ftype f = File) (kidsOf largeStore ''1''))) = 2 ^ 53 + 1"
    by (simp add: kidsOf_def largeStore_def mkFile_def mkFolder_def)
qed

section \<open>The forest of buildFileTree and its input\<close>

lemma firstPass_snoc:
  "firstPass (fs @ [x]) =
     (let (fm, rootFiles) = firstPass fs
      in (fm(fid x \<mapsto> \<lparr> node = x, kids = [] \<rparr>), if parentId x = None then rootFiles @ [fid x] else rootFiles))"
  by (simp add: firstPass_def Let_def split: prod.splits)

lemma firstPass_roots: "snd (firstPass fs) = map fid (filter (\<lambda>f. parentId f = None) fs)"
proof (induction fs rule: rev_induct)
  case Nil
  then show ?case by (simp add: firstPass_def)
next
  case (snoc x fs)
  then show ?case by (cases "firstPass fs") (simp add: firstPass_snoc)
qed

lemma find_append: "List.find P (xs @ ys) = (case List.find P xs of None \<Rightarrow> List.find P ys | Some x \<Rightarrow> Some x)"
  by (induction xs) simp_all

lemma firstPass_map:
  "distinct (map fid fs) \<Longrightarrow>
     fst (firstPass fs) i = (case findById fs i of None \<Rightarrow> None | Some f \<Rightarrow> Some \<lparr> node = f, kids = [] \<rparr>)"
proof (induction fs rule: rev_induct)
  case Nil
  then show ?case by (simp add: firstPass_def findById_def)
next
  case (snoc x fs)
  then have d: "distinct (map fid fs)" and nx: "fid x \<notin> fid ` set fs" by simp_all
  have f1: "findById (fs @ [x]) i = (if i = fid x then Some x else findById fs i)"
  proof (cases "i = fid x")
    case True
    with nx have "findById fs i = None" by (auto simp: findById_def find_None_iff image_iff)
    with True show ?thesis by (simp add: findById_def find_append)
  next
    case False
    then show ?thesis by (cases "findById fs i") (auto simp: findById_def find_append)
  qed
  show ?case using snoc.IH[OF d] by (cases "firstPass fs") (simp add: firstPass_snoc f1)
qed

lemma secondPass_snoc:
  "secondPass (fs @ [x]) fm0 =
     (let fm = secondPass fs fm0 in
      case parentId x of None \<Rightarrow> fm
      | Some p \<Rightarrow> (case fm p of None \<Rightarrow> fm | Some parent \<Rightarrow> fm(p \<mapsto> parent\<lparr> kids := kids parent @ [fid x] \<rparr>)))"
  by (simp add: secondPass_def Let_def split: option.splits)

lemma secondPass_map:
  "secondPass gs fm0 i =
     map_option (\<lambda>e. e\<lparr> kids := kids e @ map fid (kidsOf gs i) \<rparr>) (fm0 i)"
proof (induction gs rule: rev_induct)
  case Nil
  then show ?case by (cases "fm0 i") (simp_all add: secondPass_def kidsOf_def)
next
  case (snoc x gs)
  show ?case
  proof (cases "parentId x")
    case None
    with snoc show ?thesis by (simp add: secondPass_snoc kidsOf_def)
  next
    case (Some p)
    show ?thesis
    proof (cases "secondPass gs fm0 p")
      case None
      with snoc[of ] Some show ?thesis
        by (cases "i = p"; cases "fm0 i") (auto simp: secondPass_snoc kidsOf_def snoc)
    next
      case Some2: (Some parent)
      show ?thesis using Some Some2 snoc
        by (cases "i = p"; cases "fm0 i") (auto simp: secondPass_snoc kidsOf_def)
    qed
  qed
qed

lemma fileMap_entry:
  assumes d: "distinct (map fid fs)"
  shows "secondPass fs (fst (firstPass fs)) i = map_option (entryOf fs) (findById fs i)"
proof (cases "findById fs i")
  case None
  then show ?thesis by (simp add: secondPass_map firstPass_map[OF d])
next
  case (Some f)
  then have "fid f = i" by (auto dest: findById_Some)
  with Some show ?thesis by (simp add: secondPass_map firstPass_map[OF d] entryOf_def)
qed


lemma builtMap_node:
  assumes "distinct (map fid fs)" "f \<in> set fs"
  shows "builtMap fs (fid f) = Some (entryOf fs f)"
  unfolding builtMap_def by (simp add: fileMap_entry[OF assms(1)] findById_distinct[OF assms])

lemma those_map_Some_all: "those (map Some xs) = Some xs"
  by (induction xs) simp_all

lemma deref_entries:
  assumes d: "distinct (map fid fs)" and sub: "set gs \<subseteq> set fs"
  shows "deref (builtMap fs) (map fid gs) = Some (map (entryOf fs) gs)"
proof -
  have "map (builtMap fs) (map fid gs) = map Some (map (entryOf fs) gs)"
    using sub by (auto simp: builtMap_node[OF d])
  then show ?thesis unfolding deref_def by (simp only: those_map_Some_all)
qed

lemma kidsOf_subset: "set (kidsOf fs p) \<subseteq> set fs"
  by (auto simp: kidsOf_def)

lemma sum_list_mset_cong:
  fixes H :: "'a \<Rightarrow> 'b::comm_monoid_add"
  assumes "mset xs = mset ys"
  shows "sum_list (map H xs) = sum_list (map H ys)"
proof -
  have "mset (map H xs) = mset (map H ys)" using assms by (metis mset_map)
  then show ?thesis by (metis sum_mset_sum_list)
qed

lemma levelsSum_0: "levelsSum fs p 0 = {#}"
  by (simp add: levelsSum_def)

lemma sortChildren_unfold:
  assumes d: "distinct (map fid fs)" and f: "f \<in> set fs"
  shows "sortChildren (Suc n) lc (builtMap fs) (fid f) =
           map_option (TreeNode f)
             (those (map (\<lambda>c. sortChildren n lc (builtMap fs) (fid (node c)))
                         (sortWith (\<lambda>a b. compareNodes lc (node a) (node b))
                                   (map (entryOf fs) (kidsOf fs (fid f))))))"
proof -
  have k: "kids (entryOf fs f) = map fid (kidsOf fs (fid f))" "node (entryOf fs f) = f"
    by (simp_all add: entryOf_def)
  show ?thesis
    by (simp add: builtMap_node[OF d f] k deref_entries[OF d kidsOf_subset])
qed

lemma sortChildren_structure:
  assumes d: "distinct (map fid fs)"
  shows "f \<in> set fs \<Longrightarrow> sortChildren (Suc n) lc (builtMap fs) (fid f) = Some t \<Longrightarrow>
           tfile t = f \<and> wellPlaced fs t \<and> mset (treeNodes t) = add_mset f (levelsSum fs (fid f) n)"
proof (induction n arbitrary: f t)
  case 0
  let ?sorted = "sortWith (\<lambda>a b. compareNodes lc (node a) (node b)) (map (entryOf fs) (kidsOf fs (fid f)))"
  from "0.prems" obtain ts where ts: "those (map (\<lambda>c. sortChildren 0 lc (builtMap fs) (fid (node c))) ?sorted) = Some ts"
    and t: "t = TreeNode f ts"
    unfolding sortChildren_unfold[OF d "0.prems"(1)] by auto
  have "?sorted = []"
  proof (cases ?sorted)
    case Nil
    then show ?thesis .
  next
    case (Cons c cs)
    with ts show ?thesis by simp
  qed
  then have "mset (map (entryOf fs) (kidsOf fs (fid f))) = {#}"
    using mset_sortWith[of "\<lambda>a b. compareNodes lc (node a) (node b)" "map (entryOf fs) (kidsOf fs (fid f))"] by simp
  then have k: "kidsOf fs (fid f) = []" by simp
  from ts \<open>?sorted = []\<close> have "ts = []" by simp
  with t k show ?case by (simp add: levelsSum_0)
next
  case (Suc n)
  let ?es = "map (entryOf fs) (kidsOf fs (fid f))"
  let ?sorted = "sortWith (\<lambda>a b. compareNodes lc (node a) (node b)) ?es"
  let ?H = "\<lambda>g. add_mset g (levelsSum fs (fid g) n)"
  from Suc.prems obtain ts where ts: "those (map (\<lambda>c. sortChildren (Suc n) lc (builtMap fs) (fid (node c))) ?sorted) = Some ts"
    and t: "t = TreeNode f ts"
    unfolding sortChildren_unfold[OF d Suc.prems(1)] by auto
  from ts have l2: "list_all2 (\<lambda>c y. sortChildren (Suc n) lc (builtMap fs) (fid (node c)) = Some y) ?sorted ts"
    by (rule those_map_Some)
  have each: "list_all2 (\<lambda>c y. tfile y = node c \<and> wellPlaced fs y \<and> mset (treeNodes y) = ?H (node c)) ?sorted ts"
    unfolding list_all2_conv_all_nth
  proof (intro conjI allI impI)
    show "length ?sorted = length ts" using l2 by (rule list_all2_lengthD)
  next
    fix i assume i: "i < length ?sorted"
    then have "?sorted ! i \<in> set ?es" using set_sortWith[of _ ?es] nth_mem by blast
    then obtain g where g: "g \<in> set fs" "?sorted ! i = entryOf fs g"
      using kidsOf_subset[of fs "fid f"] by auto
    then have ng: "node (?sorted ! i) = g" by (simp add: entryOf_def)
    from l2 i have "sortChildren (Suc n) lc (builtMap fs) (fid (node (?sorted ! i))) = Some (ts ! i)"
      by (simp add: list_all2_conv_all_nth)
    with ng have "sortChildren (Suc n) lc (builtMap fs) (fid g) = Some (ts ! i)" by simp
    from Suc.IH[OF g(1) this] ng
    show "tfile (ts ! i) = node (?sorted ! i)" "wellPlaced fs (ts ! i)"
         "mset (treeNodes (ts ! i)) = ?H (node (?sorted ! i))"
      by simp_all
  qed
  have nodes_sorted: "mset (map node ?sorted) = mset (kidsOf fs (fid f))"
  proof -
    have "mset (map node ?sorted) = mset (map node ?es)"
      by (rule mset_map_sortWith)
    also have "map node ?es = kidsOf fs (fid f)" by (simp add: entryOf_def comp_def)
    finally show ?thesis .
  qed
  from each have "list_all2 (\<lambda>c y. tfile y = node c) ?sorted ts" by (rule list_all2_mono) simp
  then have "map tfile ts = map node ?sorted" by (rule list_all2_map_eq)
  with nodes_sorted have placed: "mset (map tfile ts) = mset (kidsOf fs (fid f))" by simp
  from each have wp: "list_all (wellPlaced fs) ts"
    by (rule list_all2_right) simp
  from each have "list_all2 (\<lambda>c y. mset (treeNodes y) = (?H \<circ> node) c) ?sorted ts"
    by (rule list_all2_mono) simp
  then have "map (\<lambda>y. mset (treeNodes y)) ts = map (?H \<circ> node) ?sorted" by (rule list_all2_map_eq)
  then have "mset (concat (map treeNodes ts)) = sum_list (map ?H (map node ?sorted))"
    by (simp add: mset_concat comp_def)
  also have "\<dots> = sum_list (map ?H (kidsOf fs (fid f)))"
    using nodes_sorted by (rule sum_list_mset_cong)
  also have "\<dots> = levelsSum fs (fid f) (Suc n)"
    by (simp add: levelsSum_Suc[OF d] sum_list_add_mset)
  finally have "mset (treeNodes t) = add_mset f (levelsSum fs (fid f) (Suc n))"
    by (simp add: t)
  with placed wp t show ?case by simp
qed

lemma sortChildren_returns:
  assumes d: "distinct (map fid fs)"
  shows "f \<in> set fs \<Longrightarrow> level fs (fid f) (Suc n) = [] \<Longrightarrow> \<exists>t. sortChildren (Suc n) lc (builtMap fs) (fid f) = Some t"
proof (induction n arbitrary: f)
  case 0
  then have "kidsOf fs (fid f) = []" using level_1[OF d, of "fid f"] by simp
  then show ?case unfolding sortChildren_unfold[OF d "0.prems"(1)] by (simp add: sortWith_def)
next
  case (Suc n)
  let ?sorted = "sortWith (\<lambda>a b. compareNodes lc (node a) (node b)) (map (entryOf fs) (kidsOf fs (fid f)))"
  have "sortChildren (Suc n) lc (builtMap fs) (fid (node c)) \<noteq> None" if "c \<in> set ?sorted" for c
  proof -
    from that have "c \<in> set (map (entryOf fs) (kidsOf fs (fid f)))" by (simp only: set_sortWith)
    then obtain g where g: "g \<in> set (kidsOf fs (fid f))" "c = entryOf fs g" by auto
    then have gin: "g \<in> set fs" using kidsOf_subset by blast
    from level_kid_empty[OF d Suc.prems(2) g(1)] have "level fs (fid g) (Suc n) = []" .
    from Suc.IH[OF gin this] g(2) show ?thesis by (auto simp: entryOf_def)
  qed
  from those_map_total[of ?sorted "\<lambda>c. sortChildren (Suc n) lc (builtMap fs) (fid (node c))", OF this]
  obtain ts where "those (map (\<lambda>c. sortChildren (Suc n) lc (builtMap fs) (fid (node c))) ?sorted) = Some ts"
    by blast
  then show ?case unfolding sortChildren_unfold[OF d Suc.prems(1)] by simp
qed


lemma chain_repeat:
  assumes n: "nthAncestor st i n = Some y" and y: "y \<in> fid ` set st" and len: "length st \<le> n"
  shows "\<exists>a b x. a < b \<and> b \<le> n \<and> nthAncestor st i a = Some x \<and> nthAncestor st i b = Some x"
proof -
  define g where "g j = the (nthAncestor st i j)" for j
  have some: "nthAncestor st i j = Some (g j)" if "j \<le> n" for j
  proof (cases "nthAncestor st i j")
    case None
    from nthAncestor_None_later[OF None that] n show ?thesis by simp
  next
    case (Some z)
    then show ?thesis by (simp add: g_def)
  qed
  have mem: "g j \<in> fid ` set st" if "j \<le> n" for j
  proof (cases "j = n")
    case True
    with some[OF that] n y show ?thesis by simp
  next
    case False
    with that have "Suc j \<le> n" by simp
    from some[OF this] some[OF that] have "parentOf st (g j) = Some (g (Suc j))"
      by (simp add: nthAncestor_Suc_top del: nthAncestor.simps)
    from parentOf_Some[OF this] show ?thesis by force
  qed
  have "\<not> inj_on g {0..n}"
  proof
    assume inj: "inj_on g {0..n}"
    have "g ` {0..n} \<subseteq> fid ` set st" using mem by auto
    with inj have "card {0..n} \<le> card (fid ` set st)" by (intro card_inj_on_le) simp_all
    also have "\<dots> \<le> card (set st)" by (rule card_image_le) simp
    also have "\<dots> \<le> length st" by (rule card_length)
    finally show False using len by simp
  qed
  then obtain a b where ab: "a \<le> n" "b \<le> n" "a \<noteq> b" "g a = g b"
    by (auto simp: inj_on_def)
  show ?thesis
  proof (cases "a < b")
    case True
    with ab some[OF ab(1)] some[OF ab(2)] show ?thesis by metis
  next
    case False
    with ab have "b < a" by simp
    with ab some[OF ab(1)] some[OF ab(2)] show ?thesis by metis
  qed
qed

lemma root_chain_stops:
  assumes d: "distinct (map fid fs)" and r: "r \<in> set fs" "parentId r = None"
      and j: "nthAncestor fs i j = Some (fid r)" and lt: "j < k"
  shows "nthAncestor fs i k = None"
proof -
  have "nthAncestor fs i (Suc j) = None"
    using j parentOf_node[OF d r(1)] r(2) by (simp add: nthAncestor_Suc_top del: nthAncestor.simps)
  moreover from lt have "Suc j \<le> k" by simp
  ultimately show ?thesis by (rule nthAncestor_None_later)
qed

lemma root_levels_empty:
  assumes d: "distinct (map fid fs)" and r: "r \<in> set fs" "parentId r = None" and len: "length fs \<le> k"
  shows "level fs (fid r) k = []"
proof (rule ccontr)
  assume "level fs (fid r) k \<noteq> []"
  then obtain f where f: "f \<in> set fs" "nthAncestor fs (fid f) k = Some (fid r)"
    by (auto simp: level_def filter_empty_conv)
  from r(1) have "fid r \<in> fid ` set fs" by simp
  from chain_repeat[OF f(2) this len] obtain a b x where
    ab: "a < b" "b \<le> k" "nthAncestor fs (fid f) a = Some x" "nthAncestor fs (fid f) b = Some x" by blast
  from ab(1) obtain c where c: "b = a + c" "0 < c" by (metis less_imp_add_positive)
  from ab(3,4) have loop: "nthAncestor fs x c = Some x" unfolding c(1) nthAncestor_add by simp
  from nthAncestor_periodic[OF ab(3) loop, of "Suc k"]
  have p: "nthAncestor fs (fid f) (a + Suc k * c) = Some x" .
  have "k < a + Suc k * c"
  proof -
    from c(2) obtain c' where "c = Suc c'" by (cases c) auto
    then show ?thesis by simp
  qed
  from root_chain_stops[OF d r f(2) this] p show False by simp
qed

lemma treeSize_nodes: "length (treeNodes t) = treeSize t"
proof (induction t)
  case (TreeNode f cs)
  then have "map (\<lambda>x. length (treeNodes x)) cs = map treeSize cs" by (intro map_cong) simp_all
  then have "sum_list (map (\<lambda>x. length (treeNodes x)) cs) = sum_list (map treeSize cs)" by (simp only:)
  then show ?case by (simp add: length_concat comp_def)
qed

lemma forestSize_nodes: "forestSize ts = length (forestNodes ts)"
  by (simp add: forestSize_def forestNodes_def length_concat comp_def treeSize_nodes)

lemma all_rooted_aux:
  assumes d: "distinct (map fid fs)" and nd: "noDangling fs"
  shows "g \<in> set fs \<Longrightarrow> nthAncestor fs (fid g) (Suc k) = None \<Longrightarrow>
           \<exists>r \<in> set fs. parentId r = None \<and> (\<exists>j. nthAncestor fs (fid g) j = Some (fid r))"
proof (induction k arbitrary: g)
  case 0
  then have "parentId g = None" using parentOf_node[OF d "0.prems"(1)] by (simp split: option.splits)
  with "0.prems"(1) show ?case by (intro bexI[of _ g] conjI exI[of _ 0]) simp_all
next
  case (Suc k)
  show ?case
  proof (cases "parentId g")
    case None
    with Suc.prems(1) show ?thesis by (intro bexI[of _ g] conjI exI[of _ 0]) simp_all
  next
    case (Some p)
    with nd Suc.prems(1) have "p \<in> fid ` set fs"
      by (auto simp: noDangling_def list_all_iff split: option.splits)
    then obtain h where h: "h \<in> set fs" "fid h = p" by auto
    from Suc.prems(2) Some parentOf_node[OF d Suc.prems(1)] have "nthAncestor fs (fid h) (Suc k) = None"
      by (simp add: h(2))
    from Suc.IH[OF h(1) this] obtain r j where r: "r \<in> set fs" "parentId r = None" "nthAncestor fs (fid h) j = Some (fid r)"
      by blast
    from r(3) Some parentOf_node[OF d Suc.prems(1)] have "nthAncestor fs (fid g) (Suc j) = Some (fid r)"
      by (simp add: h(2))
    with r(1,2) show ?thesis by blast
  qed
qed

lemma all_rooted:
  assumes "distinct (map fid fs)" "noDangling fs" "chainsEnd fs" "f \<in> set fs"
  shows "rooted fs f"
proof -
  from assms(3,4) have "nthAncestor fs (fid f) (Suc (length fs)) = None"
    by (simp add: chainsEnd_def list_all_iff del: nthAncestor.simps)
  from all_rooted_aux[OF assms(1,2,4) this] show ?thesis by (simp add: rooted_def)
qed


lemma root_subtree:
  assumes d: "distinct (map fid fs)" and g: "g \<in> set fs" "parentId g = None" and len: "length fs \<le> Suc n"
  shows "add_mset g (levelsSum fs (fid g) n) = mset (filter (\<lambda>f. \<exists>j. nthAncestor fs (fid f) j = Some (fid g)) fs)"
proof -
  let ?P = "\<lambda>j f. nthAncestor fs (fid f) j = Some (fid g)"
  have "[0..<Suc n] = 0 # [1..<Suc n]" by (simp add: upt_conv_Cons del: upt_Suc)
  then have "sum_list (map (\<lambda>j. mset (level fs (fid g) j)) [0..<Suc n])
             = mset (level fs (fid g) 0) + levelsSum fs (fid g) n"
    by (simp add: levelsSum_def del: upt_Suc)
  then have "add_mset g (levelsSum fs (fid g) n) = sum_list (map (\<lambda>j. mset (level fs (fid g) j)) [0..<Suc n])"
    by (simp only: level_0[OF d g(1)]) simp
  then have "add_mset g (levelsSum fs (fid g) n) = sum_list (map (\<lambda>j. mset (filter (?P j) fs)) [0..<Suc n])"
    by (simp only: level_def)
  also have "\<dots> = mset (filter (\<lambda>f. \<exists>j \<in> set [0..<Suc n]. ?P j f) fs)"
  proof (rule sum_filters)
    show "distinct [0..<Suc n]" by simp
  next
    show "\<forall>f \<in> set fs. \<forall>j \<in> set [0..<Suc n]. \<forall>j' \<in> set [0..<Suc n]. j \<noteq> j' \<longrightarrow> \<not> (?P j f \<and> ?P j' f)"
    proof (intro ballI impI notI)
      fix f and j j' :: nat assume ne: "j \<noteq> j'" and both: "?P j f \<and> ?P j' f"
      show False
      proof (cases "j < j'")
        case True
        from root_chain_stops[OF d g _ True] both show False by fastforce
      next
        case False
        with ne have "j' < j" by simp
        from root_chain_stops[OF d g _ this] both show False by fastforce
      qed
    qed
  qed
  also have "filter (\<lambda>f. \<exists>j \<in> set [0..<Suc n]. ?P j f) fs = filter (\<lambda>f. \<exists>j. ?P j f) fs"
  proof (rule filter_cong[OF refl])
    fix f assume f: "f \<in> set fs"
    show "(\<exists>j \<in> set [0..<Suc n]. ?P j f) = (\<exists>j. ?P j f)"
    proof
      assume "\<exists>j \<in> set [0..<Suc n]. ?P j f"
      then show "\<exists>j. ?P j f" by blast
    next
      assume "\<exists>j. ?P j f"
      then obtain j where j: "?P j f" by blast
      have "j < Suc n"
      proof (rule ccontr)
        assume "\<not> j < Suc n"
        with len have "length fs \<le> j" by simp
        from root_levels_empty[OF d g this] have "level fs (fid g) j = []" .
        moreover from f j have "f \<in> set (level fs (fid g) j)" by (simp add: level_def)
        ultimately show False by simp
      qed
      with j show "\<exists>j \<in> set [0..<Suc n]. ?P j f" by (intro bexI[of _ j]) (simp_all del: upt_Suc)
    qed
  qed
  finally show ?thesis .
qed

lemma distinct_of_ids: "distinct (map fid fs) \<Longrightarrow> distinct fs"
  by (simp add: distinct_map)

lemma roots_partition:
  assumes d: "distinct (map fid fs)"
  shows "sum_list (map (\<lambda>g. mset (filter (\<lambda>f. \<exists>j. nthAncestor fs (fid f) j = Some (fid g)) fs))
                       (filter (\<lambda>f. parentId f = None) fs))
         = mset (filter (rooted fs) fs)"
proof -
  let ?roots = "filter (\<lambda>f. parentId f = None) fs"
  let ?P = "\<lambda>g f. \<exists>j. nthAncestor fs (fid f) j = Some (fid g)"
  have "sum_list (map (\<lambda>g. mset (filter (?P g) fs)) ?roots) = mset (filter (\<lambda>f. \<exists>g \<in> set ?roots. ?P g f) fs)"
  proof (rule sum_filters)
    show "distinct ?roots" using distinct_of_ids[OF d] by simp
  next
    show "\<forall>f \<in> set fs. \<forall>g \<in> set ?roots. \<forall>g' \<in> set ?roots. g \<noteq> g' \<longrightarrow> \<not> (?P g f \<and> ?P g' f)"
    proof (intro ballI impI notI)
      fix f g g' assume g: "g \<in> set ?roots" and g': "g' \<in> set ?roots" and ne: "g \<noteq> g'"
        and both: "?P g f \<and> ?P g' f"
      then obtain j j' where j: "nthAncestor fs (fid f) j = Some (fid g)"
        and j': "nthAncestor fs (fid f) j' = Some (fid g')" by blast
      from g g' have rg: "g \<in> set fs" "parentId g = None" and rg': "g' \<in> set fs" "parentId g' = None" by simp_all
      consider "j < j'" | "j' < j" | "j = j'" by linarith
      then show False
      proof cases
        case 1
        from root_chain_stops[OF d rg j 1] j' show False by simp
      next
        case 2
        from root_chain_stops[OF d rg' j' 2] j show False by simp
      next
        case 3
        with j j' have "fid g = fid g'" by simp
        with d rg(1) rg'(1) have "g = g'" by (meson distinct_map inj_onD)
        with ne show False by simp
      qed
    qed
  qed
  also have "filter (\<lambda>f. \<exists>g \<in> set ?roots. ?P g f) fs = filter (rooted fs) fs"
    by (rule filter_cong) (auto simp: rooted_def)
  finally show ?thesis .
qed

lemma buildFileTree_unfold:
  assumes d: "distinct (map fid fs)" and ne: "fs \<noteq> []"
  shows "buildFileTree depth lc (Some fs) =
           those (map (\<lambda>r. sortChildren depth lc (builtMap fs) (fid (node r)))
                      (sortWith (\<lambda>a b. compareNodes lc (node a) (node b))
                                (map (entryOf fs) (filter (\<lambda>f. parentId f = None) fs))))"
proof -
  obtain fm1 rootFiles where fp: "firstPass fs = (fm1, rootFiles)" by (cases "firstPass fs")
  then have fm: "secondPass fs fm1 = builtMap fs" by (simp add: builtMap_def)
  from fp firstPass_roots[of fs] have rf: "rootFiles = map fid (filter (\<lambda>f. parentId f = None) fs)" by simp
  have dr: "deref (builtMap fs) rootFiles = Some (map (entryOf fs) (filter (\<lambda>f. parentId f = None) fs))"
    unfolding rf by (rule deref_entries[OF d]) auto
  show ?thesis using ne by (simp add: buildFileTree_def fp fm dr)
qed

text \<open>
  The bounded form of the invariant used above follows from its plain form: when no
  node is its own ancestor, every ancestor chain ends within \<open>length st + 1\<close> steps.
\<close>

lemma acyclic_chainsEnd:
  assumes acyc: "\<forall>f \<in> set st. \<forall>k. nthAncestor st (fid f) (Suc k) \<noteq> Some (fid f)"
  shows "chainsEnd st"
proof -
  have "nthAncestor st (fid f) (Suc (length st)) = None" if f: "f \<in> set st" for f
  proof (rule ccontr)
    assume "nthAncestor st (fid f) (Suc (length st)) \<noteq> None"
    then obtain z where z: "nthAncestor st (fid f) (Suc (length st)) = Some z" by blast
    then obtain y where y: "nthAncestor st (fid f) (length st) = Some y" "parentOf st y = Some z"
      by (auto simp: nthAncestor_Suc_top simp del: nthAncestor.simps split: option.splits)
    from parentOf_Some[OF y(2)] have "y \<in> fid ` set st" by force
    from chain_repeat[OF y(1) this] obtain a b x where
      ab: "a < b" "b \<le> length st" "nthAncestor st (fid f) a = Some x" "nthAncestor st (fid f) b = Some x"
      by blast
    from ab(1) obtain k where k: "b = a + Suc k" by (metis less_imp_Suc_add add_Suc_right)
    from ab(3,4) have loop: "nthAncestor st x (Suc k) = Some x" unfolding k nthAncestor_add by simp
    then obtain q where "parentOf st x = Some q" by (auto split: option.splits)
    from parentOf_Some[OF this] obtain g where "g \<in> set st" "fid g = x" by blast
    with loop acyc show False by blast
  qed
  then show ?thesis by (simp add: chainsEnd_def list_all_iff del: nthAncestor.simps)
qed

lemma shuffled_invariants:
  "distinct (map fid shuffledFiles)" "noDangling shuffledFiles" "chainsEnd shuffledFiles"
  "length shuffledFiles \<le> 7"
  by code_simp+

text \<open>
  C1 (as the code has it). For every input with unique identifiers \<open>buildFileTree\<close>
  returns a forest (given a recursion depth of at least the number of files). Its roots
  are exactly the files with a null \<open>parentId\<close>, and the children of every node are
  exactly the files whose \<open>parentId\<close> is that node. The forest holds exactly the files
  whose ancestor chain leads to a file with a null parent. It has as many nodes as the
  input when every non-null \<open>parentId\<close> refers to a file of the input and every
  ancestor chain ends.
\<close>

theorem C1_buildFileTree_forest:
  assumes d: "distinct (map fid fs)" and len: "length fs \<le> depth"
  shows "\<exists>forest. buildFileTree depth lc (Some fs) = Some forest \<and>
           mset (map tfile forest) = mset (filter (\<lambda>f. parentId f = None) fs) \<and>
           list_all (wellPlaced fs) forest \<and>
           mset (forestNodes forest) = mset (filter (rooted fs) fs) \<and>
           (noDangling fs \<and> chainsEnd fs \<longrightarrow> forestSize forest = length fs)"
proof (cases "fs = []")
  case True
  then show ?thesis by (simp add: buildFileTree_def forestNodes_def forestSize_def)
next
  case False
  with len obtain n where n: "depth = Suc n" by (cases depth) auto
  let ?roots = "filter (\<lambda>f. parentId f = None) fs"
  let ?es = "map (entryOf fs) ?roots"
  let ?sorted = "sortWith (\<lambda>a b. compareNodes lc (node a) (node b)) ?es"
  let ?H = "\<lambda>g. add_mset g (levelsSum fs (fid g) n)"
  have root_of: "\<exists>g. g \<in> set fs \<and> parentId g = None \<and> c = entryOf fs g" if "c \<in> set ?sorted" for c
  proof -
    from that have "c \<in> set ?es" by (simp only: set_sortWith)
    then show ?thesis by auto
  qed
  have "sortChildren (Suc n) lc (builtMap fs) (fid (node c)) \<noteq> None" if "c \<in> set ?sorted" for c
  proof -
    from root_of[OF that] obtain g where g: "g \<in> set fs" "parentId g = None" "c = entryOf fs g" by blast
    from root_levels_empty[OF d g(1,2)] len n have "level fs (fid g) (Suc n) = []" by simp
    from sortChildren_returns[OF d g(1) this] g(3) show ?thesis by (auto simp: entryOf_def)
  qed
  from those_map_total[of ?sorted "\<lambda>c. sortChildren (Suc n) lc (builtMap fs) (fid (node c))", OF this]
  obtain forest where ts: "those (map (\<lambda>c. sortChildren (Suc n) lc (builtMap fs) (fid (node c))) ?sorted) = Some forest"
    by blast
  then have built: "buildFileTree depth lc (Some fs) = Some forest"
    by (simp only: buildFileTree_unfold[OF d False] n)
  from ts have l2: "list_all2 (\<lambda>c y. sortChildren (Suc n) lc (builtMap fs) (fid (node c)) = Some y) ?sorted forest"
    by (rule those_map_Some)
  have each: "list_all2 (\<lambda>c y. tfile y = node c \<and> wellPlaced fs y \<and> mset (treeNodes y) = ?H (node c)) ?sorted forest"
    unfolding list_all2_conv_all_nth
  proof (intro conjI allI impI)
    show "length ?sorted = length forest" using l2 by (rule list_all2_lengthD)
  next
    fix i assume i: "i < length ?sorted"
    then have "?sorted ! i \<in> set ?sorted" by (rule nth_mem)
    from root_of[OF this] obtain g where g: "g \<in> set fs" "?sorted ! i = entryOf fs g" by blast
    then have ng: "node (?sorted ! i) = g" by (simp add: entryOf_def)
    from l2 i have "sortChildren (Suc n) lc (builtMap fs) (fid (node (?sorted ! i))) = Some (forest ! i)"
      by (simp add: list_all2_conv_all_nth)
    with ng have "sortChildren (Suc n) lc (builtMap fs) (fid g) = Some (forest ! i)" by simp
    from sortChildren_structure[OF d g(1) this] ng
    show "tfile (forest ! i) = node (?sorted ! i)" "wellPlaced fs (forest ! i)"
         "mset (treeNodes (forest ! i)) = ?H (node (?sorted ! i))"
      by simp_all
  qed
  have nodes_sorted: "mset (map node ?sorted) = mset ?roots"
  proof -
    have "mset (map node ?sorted) = mset (map node ?es)"
      by (rule mset_map_sortWith)
    also have "map node ?es = ?roots" by (simp add: entryOf_def comp_def)
    finally show ?thesis .
  qed
  from each have "list_all2 (\<lambda>c y. tfile y = node c) ?sorted forest" by (rule list_all2_mono) simp
  then have "map tfile forest = map node ?sorted" by (rule list_all2_map_eq)
  with nodes_sorted have roots: "mset (map tfile forest) = mset ?roots" by simp
  from each have wp: "list_all (wellPlaced fs) forest"
    by (rule list_all2_right) simp
  from each have "list_all2 (\<lambda>c y. mset (treeNodes y) = (?H \<circ> node) c) ?sorted forest"
    by (rule list_all2_mono) simp
  then have "map (\<lambda>y. mset (treeNodes y)) forest = map (?H \<circ> node) ?sorted" by (rule list_all2_map_eq)
  then have "mset (forestNodes forest) = sum_list (map ?H (map node ?sorted))"
    by (simp add: forestNodes_def mset_concat comp_def)
  also have "\<dots> = sum_list (map ?H ?roots)"
    using nodes_sorted by (rule sum_list_mset_cong)
  also have "map ?H ?roots = map (\<lambda>g. mset (filter (\<lambda>f. \<exists>j. nthAncestor fs (fid f) j = Some (fid g)) fs)) ?roots"
  proof (rule map_cong[OF refl])
    fix g assume "g \<in> set ?roots"
    then have g: "g \<in> set fs" "parentId g = None" by simp_all
    from len n have "length fs \<le> Suc n" by simp
    from root_subtree[OF d g this]
    show "?H g = mset (filter (\<lambda>f. \<exists>j. nthAncestor fs (fid f) j = Some (fid g)) fs)" .
  qed
  also have "sum_list \<dots> = mset (filter (rooted fs) fs)" by (rule roots_partition[OF d])
  finally have nodes: "mset (forestNodes forest) = mset (filter (rooted fs) fs)" .
  have count: "forestSize forest = length fs" if "noDangling fs \<and> chainsEnd fs"
  proof -
    from that all_rooted[OF d] have "filter (rooted fs) fs = fs" by (simp add: filter_id_conv)
    with nodes have "mset (forestNodes forest) = mset fs" by simp
    then have "length (forestNodes forest) = length fs" by (rule mset_eq_length)
    then show ?thesis by (simp add: forestSize_nodes)
  qed
  from built roots wp nodes count show ?thesis by blast
qed

theorem C1_buildFileTree_forest_witness:
  "distinct (map fid shuffledFiles) \<and> noDangling shuffledFiles \<and> chainsEnd shuffledFiles \<and>
   (\<exists>forest. buildFileTree 7 caselessCompare (Some shuffledFiles) = Some forest \<and>
      mset (map tfile forest) = mset (filter (\<lambda>f. parentId f = None) shuffledFiles) \<and>
      list_all (wellPlaced shuffledFiles) forest \<and>
      forestSize forest = 7)"
proof -
  have l: "length shuffledFiles = 7" by (simp add: shuffledFiles_def)
  from C1_buildFileTree_forest [OF shuffled_invariants(1) shuffled_invariants(4), of caselessCompare]
  show ?thesis using shuffled_invariants l by auto
qed

text \<open>
  C1, the claim as stated, fails: a file whose \<open>parentId\<close> is not in the input is
  neither a root nor a child, so the forest built from two files has one node; and two
  folders that are each other's parent leave the forest empty.
\<close>

theorem C1_orphan_left_out:
  "buildFileTree 3 caselessCompare (Some orphanFiles) = Some [TreeNode (mkFolder ''1'' ''P'' ''src'' None) []] \<and>
   forestSize [TreeNode (mkFolder ''1'' ''P'' ''src'' None) []] = 1 \<and> length orphanFiles = 2 \<and>
   buildFileTree 3 caselessCompare (Some cyclicStore) = Some []"
  by code_simp

end
